theory Spec2Isabelle
  imports Main "HOL-Library.AList"
begin

section \<open>Python values and string operations used by PDFKludge.py\<close>

text \<open>
  The source is Python 2: a \<open>str\<close> is a byte string, modelled as \<open>string\<close>
  (a list of 8-bit characters); integers are unbounded, modelled as \<open>int\<close>.
\<close>

abbreviation LF :: char where "LF \<equiv> CHR 0x0A"
abbreviation CR :: char where "CR \<equiv> CHR 0x0D"
abbreviation TAB :: char where "TAB \<equiv> CHR 0x09"
abbreviation SPC :: char where "SPC \<equiv> CHR '' ''"

text \<open>\<open>s.startswith(p)\<close> and \<open>s.endswith(p)\<close>.\<close>

definition startswith :: "string \<Rightarrow> string \<Rightarrow> bool" where
  "startswith s p = (take (length p) s = p)"

definition endswith :: "string \<Rightarrow> string \<Rightarrow> bool" where
  "endswith s p = (length p \<le> length s \<and> drop (length s - length p) s = p)"

text \<open>\<open>s.find(sub)\<close>: the lowest index where \<open>sub\<close> starts, or -1.\<close>

fun py_find_from :: "string \<Rightarrow> string \<Rightarrow> int \<Rightarrow> int" where
  "py_find_from [] sub i = (if sub = [] then i else -1)"
| "py_find_from (x # xs) sub i =
     (if startswith (x # xs) sub then i else py_find_from xs sub (i + 1))"

definition py_find :: "string \<Rightarrow> string \<Rightarrow> int" where
  "py_find s sub = py_find_from s sub 0"

text \<open>\<open>s.rfind(sub)\<close>: the highest index where \<open>sub\<close> starts, or -1.\<close>

fun py_rfind_from :: "string \<Rightarrow> string \<Rightarrow> int \<Rightarrow> int \<Rightarrow> int" where
  "py_rfind_from [] sub i best = (if sub = [] then i else best)"
| "py_rfind_from (x # xs) sub i best =
     py_rfind_from xs sub (i + 1) (if startswith (x # xs) sub then i else best)"

definition py_rfind :: "string \<Rightarrow> string \<Rightarrow> int" where
  "py_rfind s sub = py_rfind_from s sub 0 (-1)"

text \<open>\<open>s.count(c)\<close> for a one-character \<open>c\<close>.\<close>

definition py_count :: "string \<Rightarrow> char \<Rightarrow> nat" where
  "py_count s c = length (filter (\<lambda>x. x = c) s)"

text \<open>
  \<open>s.rstrip()\<close>: removes trailing whitespace, which for a Python 2 \<open>str\<close> is
  space, \<open>\t\<close>, \<open>\n\<close>, \<open>\x0b\<close>, \<open>\x0c\<close> and \<open>\r\<close>.
\<close>

definition py_isspace :: "char \<Rightarrow> bool" where
  "py_isspace c = (c \<in> set [SPC, TAB, LF, CHR 0x0B, CHR 0x0C, CR])"

definition rstrip :: "string \<Rightarrow> string" where
  "rstrip s = rev (dropWhile py_isspace (rev s))"

text \<open>
  \<open>int(s)\<close> for a string of decimal digits. Every call of \<open>int\<close> in the source is on
  a group matched by \<open>\d+\<close> or \<open>\d{5}\<close>, or on a value that matched \<open>\d+$\<close>.
\<close>

definition digit_val :: "char \<Rightarrow> int" where
  "digit_val c = int (of_char c) - 48"

definition int_of_digits :: "string \<Rightarrow> int" where
  "int_of_digits s = foldl (\<lambda>a c. 10 * a + digit_val c) 0 s"

text \<open>\<open>"%s" % i\<close> for an integer \<open>i\<close>: its decimal form, with a sign when negative.\<close>

definition digit_chr :: "nat \<Rightarrow> char" where
  "digit_chr d = char_of (48 + d)"

function str_nat :: "nat \<Rightarrow> string" where
  "str_nat n = (if n < 10 then [digit_chr n] else str_nat (n div 10) @ [digit_chr (n mod 10)])"
  by pat_completeness auto
termination
  by (relation "measure id") auto

definition str_int :: "int \<Rightarrow> string" where
  "str_int i = (if i < 0 then CHR ''-'' # str_nat (nat (- i)) else str_nat (nat i))"

section \<open>Regular expressions as Python's \<open>re\<close> matches them\<close>

text \<open>
  The patterns of the source use literals, character classes, \<open>.\<close>, sequence,
  alternation, greedy and lazy repetition, \<open>?\<close>, capture groups, positive lookahead,
  negative lookbehind of a literal, and \<open>$\<close>. \<open>AnyCh\<close> is \<open>.\<close> under
  \<open>re.DOTALL\<close>, \<open>AnyNoNL\<close> is \<open>.\<close> without it.
\<close>

datatype regex =
    Eps
  | Chr char
  | AnyCh
  | AnyNoNL
  | OneOf "char list"
  | NoneOf "char list"
  | Seq regex regex
  | Alt regex regex
  | Star regex
  | LazyStar regex
  | Opt regex
  | Grp nat regex
  | Ahead regex
  | NotBehind string
  | Eos

text \<open>
  A matcher state is the text consumed so far (reversed, so that a lookbehind reads its
  head), the text still to match, and the groups captured.
\<close>

type_synonym groups = "(nat \<times> string) list"
type_synonym mstate = "string \<times> string \<times> groups"

text \<open>
  \<open>rmatch r st\<close> lists every way \<open>r\<close> can match from \<open>st\<close>, in the order in which
  a backtracking matcher tries them: the first alternative before the second, one more
  iteration before stopping for a greedy repetition, and stopping before one more
  iteration for a lazy one. A repetition only iterates on a match that consumed text.
  \<open>$\<close> (no \<open>re.MULTILINE\<close>) holds at the end of the text and before a newline that
  ends the text.
\<close>

function rmatch :: "regex \<Rightarrow> mstate \<Rightarrow> mstate list" where
  "rmatch Eps st = [st]"
| "rmatch (Chr c) (b, s, g) =
     (case s of [] \<Rightarrow> [] | x # xs \<Rightarrow> if x = c then [(x # b, xs, g)] else [])"
| "rmatch AnyCh (b, s, g) = (case s of [] \<Rightarrow> [] | x # xs \<Rightarrow> [(x # b, xs, g)])"
| "rmatch AnyNoNL (b, s, g) =
     (case s of [] \<Rightarrow> [] | x # xs \<Rightarrow> if x = LF then [] else [(x # b, xs, g)])"
| "rmatch (OneOf cs) (b, s, g) =
     (case s of [] \<Rightarrow> [] | x # xs \<Rightarrow> if x \<in> set cs then [(x # b, xs, g)] else [])"
| "rmatch (NoneOf cs) (b, s, g) =
     (case s of [] \<Rightarrow> [] | x # xs \<Rightarrow> if x \<in> set cs then [] else [(x # b, xs, g)])"
| "rmatch (Seq r1 r2) st = concat (map (rmatch r2) (rmatch r1 st))"
| "rmatch (Alt r1 r2) st = rmatch r1 st @ rmatch r2 st"
| "rmatch (Star r) (b, s, g) =
     concat (map (rmatch (Star r))
       (filter (\<lambda>(b', s', g'). length s' < length s) (rmatch r (b, s, g)))) @ [(b, s, g)]"
| "rmatch (LazyStar r) (b, s, g) =
     (b, s, g) # concat (map (rmatch (LazyStar r))
       (filter (\<lambda>(b', s', g'). length s' < length s) (rmatch r (b, s, g))))"
| "rmatch (Opt r) st = rmatch r st @ [st]"
| "rmatch (Grp n r) (b, s, g) =
     map (\<lambda>(b', s', g'). (b', s', AList.update n (rev (take (length b' - length b) b')) g'))
       (rmatch r (b, s, g))"
| "rmatch (Ahead r) st = (if rmatch r st = [] then [] else [st])"
| "rmatch (NotBehind w) (b, s, g) = (if take (length w) b = rev w then [] else [(b, s, g)])"
| "rmatch Eos (b, s, g) = (if s = [] \<or> s = [LF] then [(b, s, g)] else [])"
  by pat_completeness auto
termination
  by (relation "measures [\<lambda>(r, b, s, g). size r, \<lambda>(r, b, s, g). length s]") auto

text \<open>
  \<open>re.match(r, s)\<close>: the first match of \<open>r\<close> at the start of \<open>s\<close>, or \<open>None\<close>.
  \<open>m.end()\<close> is the length of the text matched, \<open>m.group(0)\<close> that text, and
  \<open>m.group(n)\<close> the text of group \<open>n\<close> (every group of the source's patterns is
  mandatory, so a match defines each of them).
\<close>

definition re_match :: "regex \<Rightarrow> string \<Rightarrow> mstate option" where
  "re_match r s = (case rmatch r ([], s, []) of [] \<Rightarrow> None | m # _ \<Rightarrow> Some m)"

definition m_end :: "mstate \<Rightarrow> nat" where
  "m_end m = length (fst m)"

definition group0 :: "mstate \<Rightarrow> string" where
  "group0 m = rev (fst m)"

definition group :: "mstate \<Rightarrow> nat \<Rightarrow> string" where
  "group m n = (case map_of (snd (snd m)) n of None \<Rightarrow> [] | Some t \<Rightarrow> t)"

text \<open>A literal text, \<open>r+\<close> and \<open>\d\<close>.\<close>

fun Lit :: "string \<Rightarrow> regex" where
  "Lit [] = Eps"
| "Lit (c # cs) = Seq (Chr c) (Lit cs)"

definition Plus :: "regex \<Rightarrow> regex" where
  "Plus r = Seq r (Star r)"

definition Digit :: regex where
  "Digit = OneOf ''0123456789''"

subsection \<open>The patterns of the source\<close>

text \<open>
  \<^verbatim>\<open>EOL = "(?:\r\n?|(?<!\r)\n)"\<close>,
  \<^verbatim>\<open>SOD = "(?:\r?\n)"\<close>,
  \<^verbatim>\<open>WS = "(?:[\t ]|" + EOL + ")"\<close>,
  \<^verbatim>\<open>DLM = "(?:[<>\%[\]/]|" + WS + ")"\<close>,
  \<^verbatim>\<open>NAME = "/([^<>\%[\]/ \t\r\n]*)(?=" + DLM + "|$)"\<close>.
\<close>

definition EOL :: regex where
  "EOL = Alt (Seq (Chr CR) (Opt (Chr LF))) (Seq (NotBehind [CR]) (Chr LF))"

definition SOD :: regex where
  "SOD = Seq (Opt (Chr CR)) (Chr LF)"

definition WS :: regex where
  "WS = Alt (OneOf [TAB, SPC]) EOL"

definition DLM :: regex where
  "DLM = Alt (OneOf ''<>%[]/'') WS"

definition NAME :: regex where
  "NAME = Seq (Chr CHR ''/'')
            (Seq (Grp 1 (Star (NoneOf (''<>%[]/ '' @ [TAB, CR, LF]))))
                 (Ahead (Alt DLM Eos)))"

text \<open>The patterns of \<open>get_dict\<close>:
  \<^verbatim>\<open>WS + "*>>"\<close>,
  \<^verbatim>\<open>WS + "*" + NAME + WS + "*(..*?)" + WS + "*(?=/|>>|$)"\<close> and
  \<^verbatim>\<open>"\d+$"\<close>.\<close>

definition RE_DICT_END :: regex where
  "RE_DICT_END = Seq (Star WS) (Lit ''>>'')"

definition RE_DICT_ITEM :: regex where
  "RE_DICT_ITEM =
     Seq (Star WS) (Seq NAME (Seq (Star WS)
       (Seq (Grp 2 (Seq AnyNoNL (LazyStar AnyNoNL)))
         (Seq (Star WS) (Ahead (Alt (Chr CHR ''/'') (Alt (Lit ''>>'') Eos)))))))"

definition RE_INT :: regex where
  "RE_INT = Seq (Plus Digit) Eos"

section \<open>The dictionary parser and serializer\<close>

text \<open>
  A dictionary value is a nested dictionary, an integer or a string. The parser returns
  an \<open>OrderedDict\<close>: an association list in insertion order, where \<open>d[k] = v\<close> is
  \<open>AList.update\<close> (a present key keeps its place, a new one goes last), \<open>k in d\<close>
  is membership of the keys and \<open>del d[k]\<close> is \<open>AList.delete\<close>.
\<close>

datatype pval = PInt int | PStr string | PDict "(string \<times> pval) list"

type_synonym pdict = "(string \<times> pval) list"

definition has_key :: "('k \<times> 'v) list \<Rightarrow> 'k \<Rightarrow> bool" where
  "has_key d k = (map_of d k \<noteq> None)"

text \<open>
  The source calls \<open>Warn\<close>, which the module does not define.
  Modelled from the spec: \<open>Warn\<close> is the warning sink, a collaborator that receives a
  message for every non-fatal condition; a call appends the message to a log. A warning
  is kept as its message template and the arguments of the format.
\<close>

datatype warning =
    ExpectedDictItem string
  | WrongObject int int string
  | WrongStreamLength int int

text \<open>
  The array branch of \<open>get_dict\<close>:
  \<^verbatim>\<open>while value.count("]") < value.count("["):
      n = line[0].find("]") + 1
      value += line[0][:n]
      line[0] = line[0][n:]\<close>
  The loop may run forever, so it is a partial function: \<open>None\<close> is not returning.
\<close>

partial_function (option) array_loop :: "string \<Rightarrow> string \<Rightarrow> (string \<times> string) option" where
  "array_loop val line =
     (if py_count val (CHR '']'') < py_count val (CHR ''['')
      then array_loop (val @ take (nat (py_find line '']'' + 1)) line)
                      (drop (nat (py_find line '']'' + 1)) line)
      else Some (val, line))"

declare array_loop.simps [code]

text \<open>
  \<open>get_dict\<close> keeps the remaining text in \<open>line[0]\<close>, shared with the nested calls.
  \<open>get_dict_loop line ret ws\<close> is the \<open>while line[0]\<close> loop of one call, from the
  remaining text \<open>line\<close>, the dictionary \<open>ret\<close> built so far and the warnings \<open>ws\<close>
  logged so far; it returns the dictionary, the text left and the log.
\<close>

partial_function (option) get_dict_loop ::
  "string \<Rightarrow> pdict \<Rightarrow> warning list \<Rightarrow> (pdict \<times> string \<times> warning list) option" where
  "get_dict_loop line ret ws =
     (if line = [] then Some (ret, line, ws)
      else case re_match RE_DICT_END line of
        Some r \<Rightarrow> Some (ret, drop (m_end r) line, ws)
      | None \<Rightarrow>
         (case re_match RE_DICT_ITEM line of
            None \<Rightarrow> Some (ret, line, ws @ [ExpectedDictItem line])
          | Some r \<Rightarrow>
             (if group r 2 = ''<<'' then
                Option.bind (get_dict_loop (drop (m_end r) line) [] ws)
                  (\<lambda>(sub, line', ws').
                     get_dict_loop line' (AList.update (group r 1) (PDict sub) ret) ws')
              else if re_match RE_INT (group r 2) \<noteq> None then
                get_dict_loop (drop (m_end r) line)
                  (AList.update (group r 1) (PInt (int_of_digits (group r 2))) ret) ws
              else if startswith (group r 2) ''['' then
                Option.bind (array_loop (group r 2) (drop (m_end r) line))
                  (\<lambda>(val, line').
                     get_dict_loop line' (AList.update (group r 1) (PStr val) ret) ws)
              else
                get_dict_loop (drop (m_end r) line)
                  (AList.update (group r 1) (PStr (group r 2)) ret) ws)))"

declare get_dict_loop.simps [code]

definition get_dict :: "string \<Rightarrow> (pdict \<times> warning list) option" where
  "get_dict line =
     (case get_dict_loop line [] [] of
        None \<Rightarrow> None
      | Some (ret, line', ws) \<Rightarrow> Some (ret, ws))"

section \<open>Errors, the file object and the handle\<close>

text \<open>
  An exception is a value. \<open>PDFKludgeError\<close> carries its message, kept as the message
  template and the arguments of the format; the other constructors are the built-in
  exceptions the interpreter raises.
\<close>

datatype pdf_msg =
    CannotFindStartxref int
  | BadStartxref int
  | CannotFindXref int
  | InvalidXrefTable int
  | InvalidXref int
  | MissingTrailer int
  | TrailerNotDict int
  | EOFInTrailer int
  | NotAPDFFile string
  | InvalidSeekPoint int
  | InvalidRange int int

datatype error =
    PDFKludgeError pdf_msg
  | NameError string
  | TypeError
  | IOError
  | AttributeError
  | KeyError

text \<open>
  \<open>dict_to_pdf\<close>:
  \<^verbatim>\<open>ret = "<< "
  for key, value in d.iteritems():
      ret += "/" + key
      if isinstance(value, dict):
          ret += " " + dict_to_pdf(value) + " "
      else:
          ret += " %s " % value
  ret += ">>"
  return ret\<close>
  The nested call reads the name \<open>dict_to_pdf\<close>, which is an attribute of the class
  and neither a local, a global of the module nor a built-in: on a nested dictionary
  the function raises \<open>NameError\<close>.
\<close>

fun dict_to_pdf_loop :: "pdict \<Rightarrow> string \<Rightarrow> error + string" where
  "dict_to_pdf_loop [] ret = Inr ret"
| "dict_to_pdf_loop ((key, PDict sub) # d) ret = Inl (NameError ''dict_to_pdf'')"
| "dict_to_pdf_loop ((key, PInt i) # d) ret =
     dict_to_pdf_loop d (ret @ ''/'' @ key @ '' '' @ str_int i @ '' '')"
| "dict_to_pdf_loop ((key, PStr s) # d) ret =
     dict_to_pdf_loop d (ret @ ''/'' @ key @ '' '' @ s @ '' '')"

definition dict_to_pdf :: "pdict \<Rightarrow> error + string" where
  "dict_to_pdf d =
     (case dict_to_pdf_loop d ''<< '' of Inl e \<Rightarrow> Inl e | Inr ret \<Rightarrow> Inr (ret @ ''>>''))"

text \<open>
  A Python 2 file object opened with mode \<open>"r"\<close> on a byte-exact platform: the bytes of
  the file and the current position. A position past the end is allowed; reading there
  returns the empty string. Seeking to a negative position fails with \<open>IOError\<close>
  (errno 22) and leaves the position as it was. Offsets are taken to fit the platform's
  file offset type.
\<close>

record pyfile =
  content :: string
  fpos :: nat

definition f_tell :: "pyfile \<Rightarrow> int" where
  "f_tell fl = int (fpos fl)"

text \<open>\<open>f.seek(off)\<close> and \<open>f.seek(off, os.SEEK_END)\<close>.\<close>

definition f_seek :: "int \<Rightarrow> pyfile \<Rightarrow> error + pyfile" where
  "f_seek off fl = (if off < 0 then Inl IOError else Inr (fl\<lparr>fpos := nat off\<rparr>))"

definition f_seek_end :: "int \<Rightarrow> pyfile \<Rightarrow> error + pyfile" where
  "f_seek_end off fl = f_seek (int (length (content fl)) + off) fl"

text \<open>\<open>f.read(n)\<close> (a negative \<open>n\<close> reads to the end), \<open>f.read()\<close> and
  \<open>f.readline()\<close> (up to and including the next \<open>\n\<close>, or to the end).\<close>

definition f_read_all :: "pyfile \<Rightarrow> string \<times> pyfile" where
  "f_read_all fl =
     (drop (fpos fl) (content fl), fl\<lparr>fpos := fpos fl + length (drop (fpos fl) (content fl))\<rparr>)"

definition f_read :: "int \<Rightarrow> pyfile \<Rightarrow> string \<times> pyfile" where
  "f_read n fl =
     (if n < 0 then f_read_all fl
      else (take (nat n) (drop (fpos fl) (content fl)),
            fl\<lparr>fpos := fpos fl + length (take (nat n) (drop (fpos fl) (content fl)))\<rparr>))"

definition line_of :: "string \<Rightarrow> string" where
  "line_of s = takeWhile (\<lambda>c. c \<noteq> LF) s @ take 1 (dropWhile (\<lambda>c. c \<noteq> LF) s)"

definition f_readline :: "pyfile \<Rightarrow> string \<times> pyfile" where
  "f_readline fl =
     (line_of (drop (fpos fl) (content fl)),
      fl\<lparr>fpos := fpos fl + length (line_of (drop (fpos fl) (content fl)))\<rparr>)"

text \<open>
  The handle: \<open>self.infile\<close> (\<open>None\<close> before a file is opened), \<open>self.xref\<close>,
  \<open>self.seekr\<close> and \<open>self.trailer\<close>. The two indexes are Python dictionaries, kept
  as association lists with distinct keys: \<open>d[k] = v\<close> is \<open>AList.update\<close>.
  An entry of \<open>xref\<close> is \<open>{"seek": g, "gen": n, "use": b}\<close>, an entry of \<open>seekr\<close>
  is \<open>{"obj": n}\<close>.
\<close>

record xref_entry =
  seek :: int
  gen :: int
  use :: bool

datatype seekr_entry = SeekrEntry (obj: int)

record pdfkludge =
  infile :: "pyfile option"
  xref :: "(int \<times> xref_entry) list"
  seekr :: "(int \<times> seekr_entry) list"
  trailer :: pdict

text \<open>\<open>__init__\<close> with no file.\<close>

definition init :: pdfkludge where
  "init = \<lparr>infile = None, xref = [], seekr = [], trailer = []\<rparr>"

section \<open>The xref chain loader\<close>

text \<open>The patterns of \<open>get_init_xref\<close> and \<open>get_xref_table\<close>:
  \<^verbatim>\<open>WS + "(\d+)" + WS\<close>,
  \<^verbatim>\<open>"(\d+)" + WS + "(\d+)" + EOL + "$"\<close>,
  \<^verbatim>\<open>"(\d+)" + WS + "(\d{5})" + WS + "([fn])" + WS + "?" + EOL + "$"\<close> and
  \<^verbatim>\<open>"<<(.*)>>"\<close> under \<open>re.DOTALL\<close>.\<close>

definition RE_STARTXREF :: regex where
  "RE_STARTXREF = Seq WS (Seq (Grp 1 (Plus Digit)) WS)"

definition RE_XREF_HEAD :: regex where
  "RE_XREF_HEAD = Seq (Grp 1 (Plus Digit)) (Seq WS (Seq (Grp 2 (Plus Digit)) (Seq EOL Eos)))"

definition RE_XREF_ENTRY :: regex where
  "RE_XREF_ENTRY =
     Seq (Grp 1 (Plus Digit)) (Seq WS
       (Seq (Grp 2 (Seq Digit (Seq Digit (Seq Digit (Seq Digit Digit))))) (Seq WS
         (Seq (Grp 3 (OneOf ''fn'')) (Seq (Opt WS) (Seq EOL Eos))))))"

definition RE_TRAILER :: regex where
  "RE_TRAILER = Seq (Lit ''<<'') (Seq (Grp 1 (Star AnyCh)) (Lit ''>>''))"

text \<open>
  The body of the \<open>if\<close> in the table loop:
  \<^verbatim>\<open>if g != 0 and obj_n not in self.xref:
      self.seekr[g] = {"obj": int(obj_n)}
      self.xref[obj_n] = {"seek": g, "gen": ..., "use": ...}\<close>
\<close>

definition store_entry :: "int \<Rightarrow> int \<Rightarrow> int \<Rightarrow> bool \<Rightarrow> pdfkludge \<Rightarrow> pdfkludge" where
  "store_entry obj_n g gn us st =
     (if g \<noteq> 0 \<and> \<not> has_key (xref st) obj_n
      then st\<lparr>seekr := AList.update g (SeekrEntry obj_n) (seekr st),
              xref := AList.update obj_n \<lparr>seek = g, gen = gn, use = us\<rparr> (xref st)\<rparr>
      else st)"

text \<open>
  The loop \<open>while count < tab_size\<close>, by the number of iterations left
  (\<open>tab_size - count\<close>). It reads from the file \<open>fl\<close> of the handle and returns the
  file and the handle as they are when it ends or raises.
\<close>

fun xref_loop :: "nat \<Rightarrow> int \<Rightarrow> pyfile \<Rightarrow> pdfkludge \<Rightarrow> (error + unit) \<times> pyfile \<times> pdfkludge" where
  "xref_loop 0 obj_n fl st = (Inr (), fl, st)"
| "xref_loop (Suc k) obj_n fl st =
     (case re_match RE_XREF_ENTRY (fst (f_readline fl)) of
        None \<Rightarrow> (Inl (PDFKludgeError (InvalidXref (f_tell fl))), snd (f_readline fl), st)
      | Some r \<Rightarrow>
          xref_loop k (obj_n + 1) (snd (f_readline fl))
            (store_entry obj_n (int_of_digits (group r 1)) (int_of_digits (group r 2))
               (group r 3 = ''n'') st))"

text \<open>
  The loop that collects the lines of the trailer:
  \<^verbatim>\<open>while not line.rstrip().endswith(">>"):
      new = self.infile.readline()
      if not new: raise PDFKludgeError("EOF reached while reading trailer ...")
      line += new\<close>
  \<open>None\<close> is the end of the file reached.
\<close>

lemma f_readline_content [simp]: "content (snd (f_readline fl)) = content fl"
  by (simp add: f_readline_def)

lemma line_of_Nil_iff [simp]: "line_of s = [] \<longleftrightarrow> s = []"
  by (cases s) (auto simp: line_of_def)

lemma line_of_length: "length (line_of s) \<le> length s"
proof -
  have "length (take 1 (dropWhile (\<lambda>c. c \<noteq> LF) s)) \<le> length (dropWhile (\<lambda>c. c \<noteq> LF) s)"
    by simp
  moreover have "length (takeWhile (\<lambda>c. c \<noteq> LF) s) + length (dropWhile (\<lambda>c. c \<noteq> LF) s) = length s"
    by (metis length_append takeWhile_dropWhile_id)
  ultimately show ?thesis
    by (simp add: line_of_def)
qed

lemma f_readline_progress:
  assumes "fst (f_readline fl) \<noteq> []"
  shows "length (content fl) - fpos (snd (f_readline fl)) < length (content fl) - fpos fl"
proof -
  let ?rest = "drop (fpos fl) (content fl)"
  from assms have ne: "?rest \<noteq> []"
    by (simp add: f_readline_def)
  then have lt: "fpos fl < length (content fl)"
    by simp
  have pos: "0 < length (line_of ?rest)"
    using ne by simp
  have le: "length (line_of ?rest) \<le> length (content fl) - fpos fl"
    using line_of_length [of ?rest] by simp
  have "fpos (snd (f_readline fl)) = fpos fl + length (line_of ?rest)"
    by (simp add: f_readline_def)
  with pos le lt show ?thesis
    by arith
qed

function trailer_loop :: "string \<Rightarrow> pyfile \<Rightarrow> string option \<times> pyfile" where
  "trailer_loop line fl =
     (if endswith (rstrip line) ''>>'' then (Some line, fl)
      else if fst (f_readline fl) = [] then (None, snd (f_readline fl))
      else trailer_loop (line @ fst (f_readline fl)) (snd (f_readline fl)))"
  by pat_completeness auto
termination
  by (relation "measure (\<lambda>(line, fl). length (content fl) - fpos fl)")
     (auto simp: f_readline_progress)

text \<open>
  Lines 165 to 183 of \<open>get_xref_table\<close>: the \<open>trailer\<close> line, the opening
  \<open><<\<close> on it or on the next line, and the lines up to the closing \<open>>>\<close>.
\<close>

definition read_trailer :: "pyfile \<Rightarrow> (error + string) \<times> pyfile" where
  "read_trailer fl =
     (if \<not> startswith (fst (f_readline fl)) ''trailer''
      then (Inl (PDFKludgeError (MissingTrailer (f_tell fl))), snd (f_readline fl))
      else
        (case (if py_find (fst (f_readline fl)) ''<<'' < 0
               then f_readline (snd (f_readline fl))
               else (drop (nat (py_find (fst (f_readline fl)) ''<<'')) (fst (f_readline fl)),
                     snd (f_readline fl))) of
           (line, fl') \<Rightarrow>
             if \<not> startswith line ''<<''
             then (Inl (PDFKludgeError (TrailerNotDict (f_tell fl))), fl')
             else (case trailer_loop line fl' of
                     (None, fl'') \<Rightarrow> (Inl (PDFKludgeError (EOFInTrailer (f_tell fl))), fl'')
                   | (Some text, fl'') \<Rightarrow> (Inr text, fl''))))"

text \<open>
  \<open>get_xref_table\<close> up to the parsed trailer (lines 135 to 187): the \<open>xref\<close> line,
  the header of the table, its entries, the trailer text and its dictionary. The result
  is \<open>None\<close> when \<open>get_dict\<close> does not return. \<open>r.group(1)\<close> on a failed match of
  the trailer pattern would raise \<open>AttributeError\<close>.
\<close>

definition xref_section ::
  "pdfkludge \<Rightarrow> int \<Rightarrow> ((error + pdict) \<times> pdfkludge \<times> warning list) option" where
  "xref_section st seek_to =
     (case infile st of
        None \<Rightarrow> Some (Inl AttributeError, st, [])
      | Some fl0 \<Rightarrow>
     (case f_seek seek_to fl0 of
        Inl e \<Rightarrow> Some (Inl e, st, [])
      | Inr fl1 \<Rightarrow>
     (if rstrip (fst (f_readline fl1)) \<noteq> ''xref''
      then Some (Inl (PDFKludgeError (CannotFindXref seek_to)),
                 st\<lparr>infile := Some (snd (f_readline fl1))\<rparr>, [])
      else
     (case f_readline (snd (f_readline fl1)) of (line, fl2) \<Rightarrow>
     (case re_match RE_XREF_HEAD line of
        None \<Rightarrow> Some (Inl (PDFKludgeError (InvalidXrefTable seek_to)),
                      st\<lparr>infile := Some fl2\<rparr>, [])
      | Some r \<Rightarrow>
     (case xref_loop (nat (int_of_digits (group r 2))) (int_of_digits (group r 1)) fl2 st of
        (Inl e, fl3, st3) \<Rightarrow> Some (Inl e, st3\<lparr>infile := Some fl3\<rparr>, [])
      | (Inr u, fl3, st3) \<Rightarrow>
     (case read_trailer fl3 of
        (Inl e, fl4) \<Rightarrow> Some (Inl e, st3\<lparr>infile := Some fl4\<rparr>, [])
      | (Inr text, fl4) \<Rightarrow>
     (case re_match RE_TRAILER text of
        None \<Rightarrow> Some (Inl AttributeError, st3\<lparr>infile := Some fl4\<rparr>, [])
      | Some m \<Rightarrow>
     (case get_dict (group m 1) of
        None \<Rightarrow> None
      | Some (tr, ws) \<Rightarrow> Some (Inr tr, st3\<lparr>infile := Some fl4\<rparr>, ws))))))))))"

text \<open>
  \<open>get_xref_table\<close>: the section, then (lines 189 to 195)
  \<^verbatim>\<open>if "Prev" in trailer:
      self.get_xref_table(trailer["Prev"])
      del trailer["Prev"]
  self.trailer = trailer
  return True\<close>
  \<open>seek\<close> raises \<open>TypeError\<close> on a \<open>Prev\<close> that is not an integer. A chain of
  \<open>Prev\<close> offsets may loop, so the function is partial: \<open>None\<close> is not returning.
  The result is the value returned or the exception raised, the handle as the call
  leaves it, and the warnings logged.
\<close>

partial_function (option) get_xref_table ::
  "pdfkludge \<Rightarrow> int \<Rightarrow> ((error + bool) \<times> pdfkludge \<times> warning list) option" where
  "get_xref_table st seek_to =
     Option.bind (xref_section st seek_to) (\<lambda>(res, st1, ws1).
       case res of
         Inl e \<Rightarrow> Some (Inl e, st1, ws1)
       | Inr tr \<Rightarrow>
           if has_key tr ''Prev'' then
             (case map_of tr ''Prev'' of
                Some (PInt p) \<Rightarrow>
                  Option.bind (get_xref_table st1 p) (\<lambda>(res2, st2, ws2).
                    case res2 of
                      Inl e \<Rightarrow> Some (Inl e, st2, ws1 @ ws2)
                    | Inr b \<Rightarrow>
                        Some (Inr True, st2\<lparr>trailer := AList.delete ''Prev'' tr\<rparr>, ws1 @ ws2))
              | _ \<Rightarrow> Some (Inl TypeError, st1, ws1))
           else Some (Inr True, st1\<lparr>trailer := tr\<rparr>, ws1))"

declare get_xref_table.simps [code]

text \<open>
  \<open>get_init_xref\<close>:
  \<^verbatim>\<open>self.infile.seek(-1024, os.SEEK_END)
  pos = self.infile.tell()
  line = self.infile.read(1024)
  r = line.rfind("startxref")
  if r < 0: raise PDFKludgeError("Cannot find startxref after 0x%x" % pos)
  pos += r
  line = line[r + 9:]
  r = re.match(WS + "(\d+)" + WS, line, re.DOTALL)
  if not r: raise PDFKludgeError("Bad startxref at 0x%x" % pos)
  return self.get_xref_table(int(r.group(1)))\<close>
\<close>

definition get_init_xref ::
  "pdfkludge \<Rightarrow> ((error + bool) \<times> pdfkludge \<times> warning list) option" where
  "get_init_xref st =
     (case infile st of
        None \<Rightarrow> Some (Inl AttributeError, st, [])
      | Some fl0 \<Rightarrow>
     (case f_seek_end (- 1024) fl0 of
        Inl e \<Rightarrow> Some (Inl e, st, [])
      | Inr fl1 \<Rightarrow>
     (case f_read 1024 fl1 of (line, fl2) \<Rightarrow>
       if py_rfind line ''startxref'' < 0
       then Some (Inl (PDFKludgeError (CannotFindStartxref (f_tell fl1))),
                  st\<lparr>infile := Some fl2\<rparr>, [])
       else
         (case re_match RE_STARTXREF (drop (nat (py_rfind line ''startxref'' + 9)) line) of
            None \<Rightarrow> Some (Inl (PDFKludgeError
                       (BadStartxref (f_tell fl1 + py_rfind line ''startxref''))),
                     st\<lparr>infile := Some fl2\<rparr>, [])
          | Some r \<Rightarrow> get_xref_table (st\<lparr>infile := Some fl2\<rparr>) (int_of_digits (group r 1))))))"

section \<open>Opening a file\<close>

text \<open>The pattern of \<open>open_pdf\<close>: \<^verbatim>\<open>"%PDF-(...)" + EOL\<close>.\<close>

definition RE_PDF_HEAD :: regex where
  "RE_PDF_HEAD = Seq (Lit ''%PDF-'') (Seq (Grp 1 (Seq AnyNoNL (Seq AnyNoNL AnyNoNL))) EOL)"

text \<open>
  \<open>open_pdf\<close>, over a file system \<open>fs\<close> that maps a file name to the bytes of the
  file (\<open>open\<close> raises \<open>IOError\<close> on a name that is not there):
  \<^verbatim>\<open>if self.infile:
      self.infile.close()
      self.infile = None
  self.infile = open(file_name, "r")
  head = self.infile.read(10)
  r = re.match("%PDF-(...)" + EOL, head)
  if not r:
      raise PDFKludgeError("`%s' is not a PDF file" % ifn)
  return self.infile\<close>
  The argument of the \<open>raise\<close> reads the name \<open>ifn\<close>. It is not a local of
  \<open>open_pdf\<close> (these are \<open>self\<close>, \<open>file_name\<close>, \<open>head\<close> and \<open>r\<close>), the module
  binds no such global and it is not a built-in, so evaluating it raises
  \<open>NameError\<close> before a \<open>PDFKludgeError\<close> is made.
\<close>

definition open_pdf ::
  "(string \<Rightarrow> string option) \<Rightarrow> pdfkludge \<Rightarrow> string \<Rightarrow> (error + pyfile) \<times> pdfkludge" where
  "open_pdf fs st file_name =
     (case fs file_name of
        None \<Rightarrow> (Inl IOError, st\<lparr>infile := None\<rparr>)
      | Some bytes \<Rightarrow>
         (case f_read 10 \<lparr>content = bytes, fpos = 0\<rparr> of (head, fl) \<Rightarrow>
            (case re_match RE_PDF_HEAD head of
               None \<Rightarrow> (Inl (NameError ''ifn''), st\<lparr>infile := Some fl\<rparr>)
             | Some r \<Rightarrow> (Inr fl, st\<lparr>infile := Some fl\<rparr>))))"

section \<open>The stream object extractor\<close>

text \<open>The patterns of \<open>get_stream_obj_at\<close>, both under \<open>re.DOTALL\<close>:
  \<^verbatim>\<open>"((\d+)" + WS + "(\d+)" + WS + "obj" + WS + "?<<(.*)>>" + WS + "?(?<!end)stream" + SOD + ")"\<close>
  and
  \<^verbatim>\<open>"(.*)endstream" + EOL + "endobj" + EOL\<close>.\<close>

definition obj_stream_match :: regex where
  "obj_stream_match =
     Grp 1 (Seq (Grp 2 (Plus Digit)) (Seq WS (Seq (Grp 3 (Plus Digit)) (Seq WS
       (Seq (Lit ''obj'') (Seq (Opt WS) (Seq (Lit ''<<'') (Seq (Grp 4 (Star AnyCh))
         (Seq (Lit ''>>'') (Seq (Opt WS) (Seq (NotBehind ''end'')
           (Seq (Lit ''stream'') SOD))))))))))))"

definition RE_ENDSTREAM :: regex where
  "RE_ENDSTREAM =
     Seq (Grp 1 (Star AnyCh)) (Seq (Lit ''endstream'') (Seq EOL (Seq (Lit ''endobj'') EOL)))"

definition head_only_size :: int where
  "head_only_size = 4096"

text \<open>
  What \<open>get_stream_obj_at\<close> returns when it finds an object with a stream: the
  dictionary \<open>{"meta": meta}\<close> under \<open>head_only\<close>, \<open>{"meta": meta, "data": data}\<close>
  otherwise.
\<close>

record stream_obj =
  meta :: pdict
  data :: "string option"

text \<open>\<open>s[i:j]\<close> for integers \<open>i\<close> and \<open>j\<close>: a negative index counts from the end, and
  both are clipped to the string.\<close>

definition clip_index :: "nat \<Rightarrow> int \<Rightarrow> nat" where
  "clip_index n i = (if i < 0 then nat (int n + i) else min n (nat i))"

definition py_slice :: "string \<Rightarrow> int \<Rightarrow> int \<Rightarrow> string" where
  "py_slice s i j =
     take (clip_index (length s) j - clip_index (length s) i) (drop (clip_index (length s) i) s)"

text \<open>\<open>keys.index(x)\<close> for an \<open>x\<close> in \<open>keys\<close>.\<close>

definition py_index :: "int list \<Rightarrow> int \<Rightarrow> nat" where
  "py_index keys x = length (takeWhile (\<lambda>y. y \<noteq> x) keys)"

text \<open>
  Lines 229 to 240: the check of \<open>from_pt\<close>, and \<open>to_pt\<close> as given or as the next
  key of \<open>seekr\<close> in sorted order (\<open>None\<close> when \<open>from_pt\<close> is the last one).
\<close>

definition resolve_to_pt :: "pdfkludge \<Rightarrow> int \<Rightarrow> int option \<Rightarrow> error + int option" where
  "resolve_to_pt st from_pt to_pt =
     (if \<not> has_key (seekr st) from_pt
      then Inl (PDFKludgeError (InvalidSeekPoint from_pt))
      else case to_pt of
        None \<Rightarrow>
          (if py_index (sort (map fst (seekr st))) from_pt + 1 < length (sort (map fst (seekr st)))
           then Inr (Some (sort (map fst (seekr st)) ! (py_index (sort (map fst (seekr st))) from_pt + 1)))
           else Inr None)
      | Some t \<Rightarrow>
          if t \<le> from_pt then Inl (PDFKludgeError (InvalidRange from_pt t)) else Inr (Some t))"

lemma f_read_content [simp]: "content (snd (f_read n fl)) = content fl"
  by (simp add: f_read_def f_read_all_def)

lemma f_read_progress:
  assumes "fst (f_read n fl) \<noteq> []"
  shows "length (content fl) - fpos (snd (f_read n fl)) < length (content fl) - fpos fl"
proof -
  let ?rest = "drop (fpos fl) (content fl)"
  from assms have ne: "?rest \<noteq> []"
    by (auto simp: f_read_def f_read_all_def split: if_splits)
  then have lt: "fpos fl < length (content fl)"
    by simp
  have pos: "0 < length (fst (f_read n fl))"
    using assms by simp
  have le: "length (fst (f_read n fl)) \<le> length (content fl) - fpos fl"
    by (simp add: f_read_def f_read_all_def)
  have "fpos (snd (f_read n fl)) = fpos fl + length (fst (f_read n fl))"
    by (simp add: f_read_def f_read_all_def)
  with pos le lt show ?thesis
    by arith
qed

text \<open>
  The two loops that read the head of an object in chunks:
  \<^verbatim>\<open>while not re.match(obj_stream_match, data, re.DOTALL):
      new = self.infile.read(head_only_size)
      if not new: break
      data += new\<close>
  and
  \<^verbatim>\<open>while not re.match(obj_stream_match, data, re.DOTALL) and len(data) < read_size:
      new = self.infile.read(min(read_size, head_only_size))
      read_size = max(read_size - len(new), 0)
      if not new: break
      data += new\<close>
\<close>

function head_loop :: "string \<Rightarrow> pyfile \<Rightarrow> string \<times> pyfile" where
  "head_loop dat fl =
     (if re_match obj_stream_match dat \<noteq> None then (dat, fl)
      else if fst (f_read head_only_size fl) = [] then (dat, snd (f_read head_only_size fl))
      else head_loop (dat @ fst (f_read head_only_size fl)) (snd (f_read head_only_size fl)))"
  by pat_completeness auto
termination
  by (relation "measure (\<lambda>(dat, fl). length (content fl) - fpos fl)")
     (auto simp: f_read_progress)

function head_loop_bounded :: "string \<Rightarrow> int \<Rightarrow> pyfile \<Rightarrow> string \<times> pyfile" where
  "head_loop_bounded dat read_size fl =
     (if re_match obj_stream_match dat = None \<and> int (length dat) < read_size
      then
        (if fst (f_read (min read_size head_only_size) fl) = []
         then (dat, snd (f_read (min read_size head_only_size) fl))
         else head_loop_bounded (dat @ fst (f_read (min read_size head_only_size) fl))
                (max (read_size - int (length (fst (f_read (min read_size head_only_size) fl)))) 0)
                (snd (f_read (min read_size head_only_size) fl)))
      else (dat, fl))"
  by pat_completeness auto
termination
  by (relation "measure (\<lambda>(dat, read_size, fl). length (content fl) - fpos fl)")
     (auto simp: f_read_progress)

text \<open>Lines 242 to 264: the bytes of the object, read from the file at \<open>from_pt\<close>.\<close>

definition read_object :: "int \<Rightarrow> int option \<Rightarrow> bool \<Rightarrow> pyfile \<Rightarrow> string \<times> pyfile" where
  "read_object from_pt to_pt head_only fl =
     (case to_pt of
        None \<Rightarrow> if head_only then head_loop [] fl else f_read_all fl
      | Some t \<Rightarrow>
          if head_only then head_loop_bounded [] (t - from_pt - 1) fl
          else f_read (t - from_pt - 1) fl)"

text \<open>
  Lines 276 to 283: the bytes of the stream, from the buffer \<open>dat\<close>, the match \<open>r\<close> of
  the head and the dictionary \<open>mt\<close> of the object.
  \<^verbatim>\<open>if "Length" in meta:
      data = data[r.end():r.end() + meta["Length"]]
  else:
      k = re.match("(.*)endstream" + EOL + "endobj" + EOL, data, re.DOTALL)
      if k:
          data = k.group(1)
      else:
          Warn("object %d at 0x%x has wrong stream length or is not terminated" % (obj, from_pt))\<close>
  Adding a string or a dictionary to \<open>r.end()\<close> raises \<open>TypeError\<close>.
\<close>

definition stream_data ::
  "string \<Rightarrow> mstate \<Rightarrow> pdict \<Rightarrow> int \<Rightarrow> int \<Rightarrow> (error + string) \<times> warning list" where
  "stream_data dat r mt ob from_pt =
     (if has_key mt ''Length'' then
        (case map_of mt ''Length'' of
           Some (PInt l) \<Rightarrow> (Inr (py_slice dat (int (m_end r)) (int (m_end r) + l)), [])
         | _ \<Rightarrow> (Inl TypeError, []))
      else
        (case re_match RE_ENDSTREAM dat of
           Some k \<Rightarrow> (Inr (group k 1), [])
         | None \<Rightarrow> (Inr dat, [WrongStreamLength ob from_pt])))"

text \<open>
  Lines 267 to 287: the match of the head, the check of the object number, the
  dictionary and the stream. \<open>Inr None\<close> is the value \<open>None\<close> that the function returns
  when it finds no object with a stream, or an object of another number.
\<close>

definition parse_object ::
  "pdfkludge \<Rightarrow> int \<Rightarrow> bool \<Rightarrow> string \<Rightarrow> ((error + stream_obj option) \<times> warning list) option" where
  "parse_object st from_pt head_only dat =
     (case re_match obj_stream_match dat of
        None \<Rightarrow> Some (Inr None, [])
      | Some r \<Rightarrow>
         (case map_of (seekr st) from_pt of
            None \<Rightarrow> Some (Inl KeyError, [])
          | Some e \<Rightarrow>
             if int_of_digits (group r 2) \<noteq> obj e
             then Some (Inr None, [WrongObject (obj e) from_pt (group r 2)])
             else
               (case get_dict (group r 4) of
                  None \<Rightarrow> None
                | Some (mt, ws) \<Rightarrow>
                   (case stream_data (if head_only then group0 r else dat) r mt (obj e) from_pt of
                      (Inl err, ws') \<Rightarrow> Some (Inl err, ws @ ws')
                    | (Inr d, ws') \<Rightarrow>
                        if head_only
                        then Some (Inr (Some \<lparr>meta = mt, data = None\<rparr>), ws @ ws')
                        else Some (Inr (Some \<lparr>meta = mt, data = Some d\<rparr>), ws @ ws')))))"

text \<open>
  \<open>get_stream_obj_at(from_pt, to_pt, head_only)\<close>; \<open>to_pt = None\<close> is the default.
  The result is the value returned or the exception raised, the handle as the call
  leaves it, and the warnings logged; it is \<open>None\<close> when \<open>get_dict\<close> does not return.
\<close>

definition get_stream_obj_at ::
  "pdfkludge \<Rightarrow> int \<Rightarrow> int option \<Rightarrow> bool \<Rightarrow>
     ((error + stream_obj option) \<times> pdfkludge \<times> warning list) option" where
  "get_stream_obj_at st from_pt to_pt head_only =
     (case resolve_to_pt st from_pt to_pt of
        Inl e \<Rightarrow> Some (Inl e, st, [])
      | Inr to_pt' \<Rightarrow>
         (case infile st of
            None \<Rightarrow> Some (Inl AttributeError, st, [])
          | Some fl0 \<Rightarrow>
             (case f_seek from_pt fl0 of
                Inl e \<Rightarrow> Some (Inl e, st, [])
              | Inr fl1 \<Rightarrow>
                 (case read_object from_pt to_pt' head_only fl1 of (dat, fl2) \<Rightarrow>
                    (case parse_object st from_pt head_only dat of
                       None \<Rightarrow> None
                     | Some (res, ws) \<Rightarrow> Some (res, st\<lparr>infile := Some fl2\<rparr>, ws))))))"

section \<open>Kinds of failure\<close>

text \<open>
  The two messages that \<open>get_stream_obj_at\<close> raises \<open>PDFKludgeError\<close> with:
  \<open>asked for object at invalid seek point\<close> (a lookup error) and
  \<open>asked for object at invalid range\<close> (a range error). \<open>raised res\<close> is the
  exception that a call with result \<open>res\<close> raised, if it raised one.
\<close>

definition is_lookup_error :: "error \<Rightarrow> bool" where
  "is_lookup_error e = (case e of PDFKludgeError (InvalidSeekPoint p) \<Rightarrow> True | _ \<Rightarrow> False)"

definition is_range_error :: "error \<Rightarrow> bool" where
  "is_range_error e = (case e of PDFKludgeError (InvalidRange p q) \<Rightarrow> True | _ \<Rightarrow> False)"

definition is_format_error :: "error \<Rightarrow> bool" where
  "is_format_error e = (case e of PDFKludgeError m \<Rightarrow> True | _ \<Rightarrow> False)"

definition raised :: "((error + 'a) \<times> 'b) option \<Rightarrow> error option" where
  "raised res = (case res of Some (Inl e, x) \<Rightarrow> Some e | _ \<Rightarrow> None)"

section \<open>The trailer of one table\<close>

text \<open>
  \<open>table_trailer st seek_to\<close> is the trailer dictionary of the xref table at offset
  \<open>seek_to\<close> of the file of the handle, as \<open>get_xref_table\<close> parses it (with its
  \<open>Prev\<close> key, when it has one).
\<close>

definition table_trailer :: "pdfkludge \<Rightarrow> int \<Rightarrow> pdict option" where
  "table_trailer st seek_to =
     (case xref_section st seek_to of Some (Inr tr, st1, ws1) \<Rightarrow> Some tr | _ \<Rightarrow> None)"

section \<open>Notions used to state the properties of the matcher and the extractor\<close>

text \<open>A pattern without capture groups.\<close>

fun no_grp :: "regex \<Rightarrow> bool" where
  "no_grp (Seq r1 r2) = (no_grp r1 \<and> no_grp r2)"
| "no_grp (Alt r1 r2) = (no_grp r1 \<and> no_grp r2)"
| "no_grp (Star r) = no_grp r"
| "no_grp (LazyStar r) = no_grp r"
| "no_grp (Opt r) = no_grp r"
| "no_grp (Grp n r) = False"
| "no_grp r = True"

text \<open>
  The three forms of a line end that \<open>EOL\<close> matches, and the terminator of a stream
  object: \<open>endstream\<close>, a line end, \<open>endobj\<close>, a line end.
\<close>

definition eols :: "string list" where
  "eols = [[CR, LF], [CR], [LF]]"

definition is_terminator :: "string \<Rightarrow> bool" where
  "is_terminator t = (\<exists>e1 \<in> set eols. \<exists>e2 \<in> set eols. t = ''endstream'' @ e1 @ ''endobj'' @ e2)"

section \<open>The entries that a chain of tables lists\<close>

text \<open>
  \<open>listed_entries k obj_n fl\<close> are the entries that the next \<open>k\<close> lines of \<open>fl\<close>
  list, numbered from \<open>obj_n\<close>, up to the first line that is not an entry;
  \<open>table_entries st seek_to\<close> are the entries of the xref table at offset
  \<open>seek_to\<close>, and \<open>chain_entries st seek_to\<close> those of the whole chain from that
  table on, in the order in which \<open>get_xref_table\<close> processes the tables: the table at
  \<open>seek_to\<close> first, then the tables that \<open>Prev\<close> leads to.
\<close>

fun listed_entries :: "nat \<Rightarrow> int \<Rightarrow> pyfile \<Rightarrow> (int \<times> xref_entry) list" where
  "listed_entries 0 obj_n fl = []"
| "listed_entries (Suc k) obj_n fl =
     (case re_match RE_XREF_ENTRY (fst (f_readline fl)) of
        None \<Rightarrow> []
      | Some r \<Rightarrow>
          (obj_n, \<lparr>seek = int_of_digits (group r 1), gen = int_of_digits (group r 2),
                    use = (group r 3 = ''n'')\<rparr>)
          # listed_entries k (obj_n + 1) (snd (f_readline fl)))"

definition table_entries :: "pdfkludge \<Rightarrow> int \<Rightarrow> (int \<times> xref_entry) list" where
  "table_entries st seek_to =
     (case infile st of
        None \<Rightarrow> []
      | Some fl0 \<Rightarrow>
     (case f_seek seek_to fl0 of
        Inl e \<Rightarrow> []
      | Inr fl1 \<Rightarrow>
     (if rstrip (fst (f_readline fl1)) \<noteq> ''xref'' then []
      else
     (case re_match RE_XREF_HEAD (fst (f_readline (snd (f_readline fl1)))) of
        None \<Rightarrow> []
      | Some r \<Rightarrow>
          listed_entries (nat (int_of_digits (group r 2))) (int_of_digits (group r 1))
            (snd (f_readline (snd (f_readline fl1))))))))"

partial_function (option) chain_entries ::
  "pdfkludge \<Rightarrow> int \<Rightarrow> (int \<times> xref_entry) list option" where
  "chain_entries st seek_to =
     Option.bind (xref_section st seek_to) (\<lambda>(res, st1, ws1).
       case res of
         Inl e \<Rightarrow> Some (table_entries st seek_to)
       | Inr tr \<Rightarrow>
           (case map_of tr ''Prev'' of
              Some (PInt p) \<Rightarrow>
                Option.bind (chain_entries st1 p) (\<lambda>es. Some (table_entries st seek_to @ es))
            | _ \<Rightarrow> Some (table_entries st seek_to)))"

declare chain_entries.simps [code]

text \<open>
  \<open>store_all es st\<close> stores the entries \<open>es\<close> one after the other, as the table
  loop does; \<open>first_seen es n\<close> is the first entry of \<open>es\<close> for the object number
  \<open>n\<close> whose offset is not zero.
\<close>

definition store_all :: "(int \<times> xref_entry) list \<Rightarrow> pdfkludge \<Rightarrow> pdfkludge" where
  "store_all es st = foldl (\<lambda>s (n, e). store_entry n (seek e) (gen e) (use e) s) st es"

definition first_seen :: "(int \<times> xref_entry) list \<Rightarrow> int \<Rightarrow> xref_entry option" where
  "first_seen es n = map_option snd (find (\<lambda>(m, e). m = n \<and> seek e \<noteq> 0) es)"

section \<open>Mappings that the serializer and the parser agree on\<close>

text \<open>
  The character classes of the patterns, as lists: \<open>ws_chars\<close> is the class of \<open>WS\<close>,
  \<open>name_class\<close> the class that \<open>NAME\<close> excludes, \<open>digits\<close> the decimal digits.
\<close>

definition ws_chars :: "char list" where
  "ws_chars = [SPC, TAB, CR, LF]"

definition name_class :: "char list" where
  "name_class = ''<>%[]/ '' @ [TAB, CR, LF]"

definition digits :: "char list" where
  "digits = ''0123456789''"

text \<open>
  \<open>splits b v u g\<close> lists, shortest first, the states in which a lazy \<open>.*?\<close> started
  before \<open>v @ u\<close> has consumed a proper prefix of \<open>v\<close>.
\<close>

fun splits :: "string \<Rightarrow> string \<Rightarrow> string \<Rightarrow> groups \<Rightarrow> mstate list" where
  "splits b [] u g = []"
| "splits b (x # v) u g = (b, x # v @ u, g) # splits (x # b) v u g"

text \<open>
  The item pattern of \<open>get_dict\<close> takes the first character of a value, whatever it is, and
  then as few characters as it can: it stops where the lookahead \<^verbatim>\<open>(?=/|>>|$)\<close> holds.
  \<open>stop_here s\<close> says that \<open>s\<close> begins with \<open>/\<close> or with \<open>>>\<close>, and \<open>until_stop s\<close> counts
  the characters of \<open>s\<close> before the first place where that holds. For a value text \<open>s\<close>,
  \<open>captured s\<close> is its first character and what follows up to that place, and \<open>left_over s\<close>
  is the rest of \<open>s\<close>, empty when \<open>s\<close> has no such place after its first character.
\<close>

definition stop_here :: "string \<Rightarrow> bool" where
  "stop_here s = (startswith s ''/'' \<or> startswith s ''>>'')"

fun until_stop :: "string \<Rightarrow> nat" where
  "until_stop [] = 0"
| "until_stop (c # s) = (if stop_here (c # s) then 0 else Suc (until_stop s))"

definition captured :: "string \<Rightarrow> string" where
  "captured s = take (Suc (until_stop (tl s))) s"

definition left_over :: "string \<Rightarrow> string" where
  "left_over s = drop (Suc (until_stop (tl s))) s"

text \<open>
  A value that begins with \<open>[\<close> goes through the array loop, which appends text up to the
  next \<open>]\<close> while the value has fewer \<open>]\<close> than \<open>[\<close>. \<open>closes v l\<close> says that the loop,
  started with the value \<open>v\<close> before the text \<open>l\<close>, stops when it has appended the whole of
  \<open>l\<close> and not before.
\<close>

function closes :: "string \<Rightarrow> string \<Rightarrow> bool" where
  "closes v l =
     (if py_count v (CHR '']'') < py_count v (CHR ''['') then
        (if py_find l '']'' < 0 then False
         else closes (v @ take (nat (py_find l '']'' + 1)) l) (drop (nat (py_find l '']'' + 1)) l))
      else l = [])"
  by pat_completeness auto
termination
proof (relation "measure (\<lambda>(v, l). length l)")
  show "wf (measure (\<lambda>(v, l). length l))"
    by simp
next
  fix v l :: string
  assume "\<not> py_find l '']'' < 0"
  then have "l \<noteq> []" and "0 < nat (py_find l '']'' + 1)"
    by (auto simp: py_find_def)
  then show "((v @ take (nat (py_find l '']'' + 1)) l, drop (nat (py_find l '']'' + 1)) l), (v, l))
      \<in> measure (\<lambda>(v, l). length l)"
    by simp
qed

text \<open>
  A key that is a name: no character of \<open>name_class\<close>. An opaque string that the parser
  reads back as it was written: it is not empty and does not begin with white space; the
  part that the item pattern captures holds no line feed and does not end with white space;
  and either it begins with \<open>[\<close> and the array loop stops at its end, or the pattern
  captures all of it and it is neither a run of digits (stored as an integer) nor \<open><<\<close>
  (parsed as a nested dictionary). An integer is written without a sign, and so read back as
  an integer, only when it is not negative.
\<close>

definition name_ok :: "string \<Rightarrow> bool" where
  "name_ok k = list_all (\<lambda>c. c \<notin> set name_class) k"

definition opaque_ok :: "string \<Rightarrow> bool" where
  "opaque_ok s =
     (s \<noteq> [] \<and> hd s \<notin> set ws_chars \<and>
      LF \<notin> set (captured s) \<and> last (captured s) \<notin> set ws_chars \<and>
      (if hd s = CHR ''['' then closes (captured s) (left_over s)
       else left_over s = [] \<and> \<not> list_all (\<lambda>c. c \<in> set digits) s \<and> s \<noteq> ''<<''))"

fun value_ok :: "pval \<Rightarrow> bool" where
  "value_ok (PInt i) = (0 \<le> i)"
| "value_ok (PStr s) = opaque_ok s"
| "value_ok (PDict d) = False"

text \<open>
  The items of a flat mapping that is read back as it was written: every key is a name and
  every value is read back. The value of the last item may also be one space, which the item
  pattern then takes from the spaces that end the text. A flat mapping has distinct keys, as
  every \<open>OrderedDict\<close> has, and no nested dictionary.
\<close>

fun items_ok :: "pdict \<Rightarrow> bool" where
  "items_ok [] = True"
| "items_ok [(k, v)] = (name_ok k \<and> (value_ok v \<or> v = PStr [SPC]))"
| "items_ok ((k, v) # m) = (name_ok k \<and> value_ok v \<and> items_ok m)"

definition flat_ok :: "pdict \<Rightarrow> bool" where
  "flat_ok m = (distinct (map fst m) \<and> items_ok m)"

text \<open>
  The text that \<open>dict_to_pdf\<close> appends for one item of a flat mapping: \<open>"/" + key\<close> and
  then \<open>" %s " % value\<close>. A nested dictionary is not flat, and \<open>value_text\<close> gives it no
  text.
\<close>

fun value_text :: "pval \<Rightarrow> string" where
  "value_text (PInt i) = str_int i"
| "value_text (PStr s) = s"
| "value_text (PDict d) = []"

definition item_text :: "string \<times> pval \<Rightarrow> string" where
  "item_text kv = CHR ''/'' # fst kv @ SPC # value_text (snd kv) @ [SPC]"

section \<open>Example documents\<close>

text \<open>
  \<open>handle_on bytes\<close> is the handle as a successful \<open>open_pdf\<close> leaves a fresh
  object: the file is open and its first ten bytes have been read.
\<close>

definition handle_on :: "string \<Rightarrow> pdfkludge" where
  "handle_on bytes = init\<lparr>infile := Some \<lparr>content = bytes, fpos = 10\<rparr>\<rparr>"

text \<open>A complete PDF file of 143 bytes: one object, one xref table at offset 41.\<close>

definition small_pdf :: string where
  "small_pdf =
     ''%PDF-1.4'' @ [LF] @
     ''1 0 obj<</Type /Catalog>>endobj'' @ [LF] @
     ''xref'' @ [LF] @
     ''0 2'' @ [LF] @
     ''0000000000 65535 f '' @ [LF] @
     ''0000000009 00000 n '' @ [LF] @
     ''trailer'' @ [LF] @
     ''<< /Size 2 /Root 1 0 R >>'' @ [LF] @
     ''startxref'' @ [LF] @
     ''41'' @ [LF] @
     ''%%EOF'' @ [LF]"

text \<open>A file system with one text file that is not a PDF.\<close>

definition notes_fs :: "string \<Rightarrow> string option" where
  "notes_fs name = (if name = ''notes.txt'' then Some ''hello world, this is text'' else None)"

text \<open>
  A PDF file with four stream objects at offsets 9, 62, 114 and 163, the object 5 at
  offset 206 and one xref table at offset 223; \<open>streams_handle\<close> is the handle after
  \<open>get_xref_table(223)\<close> on it.
\<close>

definition streams_pdf :: string where
  "streams_pdf =
     ''%PDF-1.4'' @ [LF] @
     ''1 0 obj<</Length 5 0 R>>stream'' @ [LF] @ ''ABCD'' @ [LF] @
       ''endstream'' @ [LF] @ ''endobj'' @ [LF] @
     ''2 0 obj<</Length 9 /X>>stream'' @ [LF] @ ''ABCD'' @ [LF] @
       ''endstream'' @ [LF] @ ''endobj'' @ [LF] @
     ''3 0 obj<</Length 9>>stream'' @ [LF] @ ''ABCD'' @ [LF] @
       ''endstream'' @ [LF] @ ''endobj'' @ [LF] @
     ''4 0 obj<</A 1>>stream'' @ [LF] @ ''XYZ'' @ [LF] @
       ''endstream'' @ [LF] @ ''endobj'' @ [LF] @
     ''5 0 obj'' @ [LF] @ ''4'' @ [LF] @ ''endobj'' @ [LF] @
     ''xref'' @ [LF] @
     ''1 5'' @ [LF] @
     ''0000000009 00000 n '' @ [LF] @
     ''0000000062 00000 n '' @ [LF] @
     ''0000000114 00000 n '' @ [LF] @
     ''0000000163 00000 n '' @ [LF] @
     ''0000000206 00000 n '' @ [LF] @
     ''trailer'' @ [LF] @
     ''<< /Size 6 >>'' @ [LF] @
     ''startxref'' @ [LF] @
     ''223'' @ [LF] @
     ''%%EOF'' @ [LF]"

definition streams_handle :: pdfkludge where
  "streams_handle =
     \<lparr>infile = Some \<lparr>content = streams_pdf, fpos = 354\<rparr>,
      xref = [(1, \<lparr>seek = 9, gen = 0, use = True\<rparr>), (2, \<lparr>seek = 62, gen = 0, use = True\<rparr>),
              (3, \<lparr>seek = 114, gen = 0, use = True\<rparr>), (4, \<lparr>seek = 163, gen = 0, use = True\<rparr>),
              (5, \<lparr>seek = 206, gen = 0, use = True\<rparr>)],
      seekr = [(9, SeekrEntry 1), (62, SeekrEntry 2), (114, SeekrEntry 3), (163, SeekrEntry 4),
               (206, SeekrEntry 5)],
      trailer = [(''Size'', PInt 6)]\<rparr>"

text \<open>
  A file with two chained xref tables: the older one at offset 9 lists object 5 at
  offset 50 and has the trailer \<open>/Root 1 0 R\<close>; the newer one at offset 64 lists
  object 5 at offset 100 and has the trailer \<open>/Root 2 0 R /Prev 9\<close>.
  \<open>chain_handle\<close> is the handle after \<open>get_xref_table(64)\<close> on it.
\<close>

definition chain_pdf :: string where
  "chain_pdf =
     ''%PDF-1.4'' @ [LF] @
     ''xref'' @ [LF] @
     ''5 1'' @ [LF] @
     ''0000000050 00000 n '' @ [LF] @
     ''trailer'' @ [LF] @
     ''<< /Root 1 0 R >>'' @ [LF] @
     ''xref'' @ [LF] @
     ''5 1'' @ [LF] @
     ''0000000100 00000 n '' @ [LF] @
     ''trailer'' @ [LF] @
     ''<< /Root 2 0 R /Prev 9 >>'' @ [LF] @
     ''startxref'' @ [LF] @
     ''64'' @ [LF] @
     ''%%EOF'' @ [LF]"

definition chain_handle :: pdfkludge where
  "chain_handle =
     \<lparr>infile = Some \<lparr>content = chain_pdf, fpos = 64\<rparr>,
      xref = [(5, \<lparr>seek = 100, gen = 0, use = True\<rparr>)],
      seekr = [(100, SeekrEntry 5)],
      trailer = [(''Root'', PStr ''2 0 R'')]\<rparr>"

section \<open>Facts about the matcher\<close>

text \<open>
  The equations of the two repetitions unfold themselves, so they are not used as
  rewrite rules.
\<close>

declare rmatch.simps(9,10) [simp del]

lemma rmatch_Star_set:
  "set (rmatch (Star r) (b, s, g)) =
     (\<Union>y \<in> set (filter (\<lambda>(b', s', g'). length s' < length s) (rmatch r (b, s, g))). set (rmatch (Star r) y)) \<union> {(b, s, g)}"
  by (subst rmatch.simps) simp

lemma rmatch_LazyStar_set:
  "set (rmatch (LazyStar r) (b, s, g)) =
     (\<Union>y \<in> set (filter (\<lambda>(b', s', g'). length s' < length s) (rmatch r (b, s, g))). set (rmatch (LazyStar r) y)) \<union> {(b, s, g)}"
  by (subst rmatch.simps) simp

text \<open>A match consumes a prefix of the text that was left.\<close>

lemma rmatch_sound:
  "x \<in> set (rmatch r st) \<Longrightarrow> \<exists>t. fst (snd st) = t @ fst (snd x) \<and> fst x = rev t @ fst st"
proof (induction r st arbitrary: x rule: rmatch.induct)
  case (1 st)
  then show ?case by simp
next
  case (2 c b s g)
  then show ?case by (cases s) (auto split: if_splits)
next
  case (3 b s g)
  then show ?case by (cases s) auto
next
  case (4 b s g)
  then show ?case by (cases s) (auto split: if_splits)
next
  case (5 cs b s g)
  then show ?case by (cases s) (auto split: if_splits)
next
  case (6 cs b s g)
  then show ?case by (cases s) (auto split: if_splits)
next
  case (7 r1 r2 st)
  from "7.prems" obtain y where y: "y \<in> set (rmatch r1 st)" and x: "x \<in> set (rmatch r2 y)"
    by auto
  from "7.IH"(1) [OF y] obtain t1 where t1: "fst (snd st) = t1 @ fst (snd y)" "fst y = rev t1 @ fst st"
    by blast
  from "7.IH"(2) [OF y x] obtain t2 where t2: "fst (snd y) = t2 @ fst (snd x)" "fst x = rev t2 @ fst y"
    by blast
  show ?case
    by (rule exI [of _ "t1 @ t2"]) (simp add: t1 t2)
next
  case (8 r1 r2 st)
  from "8.prems" have "x \<in> set (rmatch r1 st) \<or> x \<in> set (rmatch r2 st)"
    by simp
  with "8.IH" show ?case
    by blast
next
  case (9 r b s g)
  show ?case
  proof (cases "x = (b, s, g)")
    case True
    then show ?thesis by simp
  next
    case False
    with "9.prems" obtain y where
      yf: "y \<in> set (filter (\<lambda>(b', s', g'). length s' < length s) (rmatch r (b, s, g)))"
      and x: "x \<in> set (rmatch (Star r) y)"
      unfolding rmatch_Star_set by blast
    from yf have y: "y \<in> set (rmatch r (b, s, g))"
      by simp
    from "9.IH"(1) [OF y] obtain t1 where t1: "s = t1 @ fst (snd y)" "fst y = rev t1 @ b"
      by auto
    from "9.IH"(2) [OF yf x] obtain t2 where t2: "fst (snd y) = t2 @ fst (snd x)" "fst x = rev t2 @ fst y"
      by blast
    show ?thesis
      by (rule exI [of _ "t1 @ t2"]) (simp add: t1 t2)
  qed
next
  case (10 r b s g)
  show ?case
  proof (cases "x = (b, s, g)")
    case True
    then show ?thesis by simp
  next
    case False
    with "10.prems" obtain y where
      yf: "y \<in> set (filter (\<lambda>(b', s', g'). length s' < length s) (rmatch r (b, s, g)))"
      and x: "x \<in> set (rmatch (LazyStar r) y)"
      unfolding rmatch_LazyStar_set by blast
    from yf have y: "y \<in> set (rmatch r (b, s, g))"
      by simp
    from "10.IH"(1) [OF y] obtain t1 where t1: "s = t1 @ fst (snd y)" "fst y = rev t1 @ b"
      by auto
    from "10.IH"(2) [OF yf x] obtain t2 where t2: "fst (snd y) = t2 @ fst (snd x)" "fst x = rev t2 @ fst y"
      by blast
    show ?thesis
      by (rule exI [of _ "t1 @ t2"]) (simp add: t1 t2)
  qed
next
  case (11 r st)
  from "11.prems" have "x \<in> set (rmatch r st) \<or> x = st"
    by auto
  then show ?case
  proof
    assume "x \<in> set (rmatch r st)"
    with "11.IH" show ?thesis
      by blast
  next
    assume "x = st"
    then show ?thesis
      by simp
  qed
next
  case (12 n r b s g)
  from "12.prems" obtain y where y: "y \<in> set (rmatch r (b, s, g))"
    and xy: "fst x = fst y" "fst (snd x) = fst (snd y)"
    by auto
  from "12.IH" [OF y] xy show ?case
    by simp
next
  case (13 r st)
  from "13.prems" have "x = st"
    by (simp split: if_splits)
  then show ?case
    by simp
next
  case (14 w b s g)
  then show ?case by (auto split: if_splits)
next
  case (15 b s g)
  then show ?case by (auto split: if_splits)
qed

lemma re_match_end:
  assumes "re_match r s = Some m"
  shows "m_end m \<le> length s \<and> group0 m = take (m_end m) s \<and> fst (snd m) = drop (m_end m) s"
proof -
  from assms have "m \<in> set (rmatch r ([], s, []))"
    by (auto simp: re_match_def split: list.splits)
  from rmatch_sound [OF this] obtain t where t: "s = t @ fst (snd m)" "fst m = rev t"
    by auto
  then have "m_end m = length t"
    by (simp add: m_end_def)
  with t show ?thesis
    by (auto simp: group0_def)
qed

text \<open>Slices from a position inside the string.\<close>

lemma py_slice_short:
  assumes "e \<le> length s" and "int (length s) - int e < l"
  shows "py_slice s (int e) (int e + l) = drop e s"
proof -
  have a: "clip_index (length s) (int e) = e"
    using assms by (simp add: clip_index_def)
  have b: "clip_index (length s) (int e + l) = length s"
    using assms by (auto simp: clip_index_def min_def)
  show ?thesis
    by (simp add: py_slice_def a b)
qed

lemma py_slice_exact:
  assumes "0 \<le> l"
  shows "py_slice s (int e) (int e + l) = take (nat l) (drop e s)"
proof (cases "e \<le> length s")
  case True
  then have a: "clip_index (length s) (int e) = e"
    by (simp add: clip_index_def)
  have b: "clip_index (length s) (int e + l) = min (length s) (e + nat l)"
    using assms by (simp add: clip_index_def nat_add_distrib)
  have "min (length s) (e + nat l) - e = min (length s - e) (nat l)"
    using True by (simp add: min_def)
  then show ?thesis
    by (simp add: py_slice_def a b min_def)
next
  case False
  then show ?thesis
    by (simp add: py_slice_def clip_index_def)
qed

lemma rmatch_Lit:
  "rmatch (Lit w) (b, s, g) =
     (if take (length w) s = w then [(rev w @ b, drop (length w) s, g)] else [])"
proof (induction w arbitrary: b s)
  case Nil
  then show ?case by simp
next
  case (Cons c w)
  show ?case
  proof (cases s)
    case Nil
    then show ?thesis by simp
  next
    case (Cons x xs)
    then show ?thesis
      using Cons.IH [of "x # b" xs] by auto
  qed
qed

lemma rmatch_no_grp:
  "no_grp r \<Longrightarrow> x \<in> set (rmatch r st) \<Longrightarrow> snd (snd x) = snd (snd st)"
proof (induction r st arbitrary: x rule: rmatch.induct)
  case (1 st)
  then show ?case by simp
next
  case (2 c b s g)
  then show ?case by (cases s) (auto split: if_splits)
next
  case (3 b s g)
  then show ?case by (cases s) auto
next
  case (4 b s g)
  then show ?case by (cases s) (auto split: if_splits)
next
  case (5 cs b s g)
  then show ?case by (cases s) (auto split: if_splits)
next
  case (6 cs b s g)
  then show ?case by (cases s) (auto split: if_splits)
next
  case (7 r1 r2 st)
  from "7.prems" obtain y where y: "y \<in> set (rmatch r1 st)" and x: "x \<in> set (rmatch r2 y)"
    by auto
  from "7.prems" have n: "no_grp r1" "no_grp r2"
    by simp_all
  from "7.IH"(1) [OF n(1) y] "7.IH"(2) [OF y n(2) x] show ?case
    by simp
next
  case (8 r1 r2 st)
  from "8.prems" have "x \<in> set (rmatch r1 st) \<or> x \<in> set (rmatch r2 st)"
    by simp
  moreover from "8.prems" have "no_grp r1" "no_grp r2"
    by simp_all
  ultimately show ?case
    using "8.IH" by blast
next
  case (9 r b s g)
  show ?case
  proof (cases "x = (b, s, g)")
    case True
    then show ?thesis by simp
  next
    case False
    with "9.prems" obtain y where
      yf: "y \<in> set (filter (\<lambda>(b', s', g'). length s' < length s) (rmatch r (b, s, g)))"
      and x: "x \<in> set (rmatch (Star r) y)"
      unfolding rmatch_Star_set by blast
    from yf have y: "y \<in> set (rmatch r (b, s, g))"
      by simp
    from "9.prems" have n: "no_grp r"
      by simp
    from "9.IH"(1) [OF n y] "9.IH"(2) [OF yf "9.prems"(1) x] show ?thesis
      by simp
  qed
next
  case (10 r b s g)
  show ?case
  proof (cases "x = (b, s, g)")
    case True
    then show ?thesis by simp
  next
    case False
    with "10.prems" obtain y where
      yf: "y \<in> set (filter (\<lambda>(b', s', g'). length s' < length s) (rmatch r (b, s, g)))"
      and x: "x \<in> set (rmatch (LazyStar r) y)"
      unfolding rmatch_LazyStar_set by blast
    from yf have y: "y \<in> set (rmatch r (b, s, g))"
      by simp
    from "10.prems" have n: "no_grp r"
      by simp
    from "10.IH"(1) [OF n y] "10.IH"(2) [OF yf "10.prems"(1) x] show ?thesis
      by simp
  qed
next
  case (11 r st)
  from "11.prems" have "x \<in> set (rmatch r st) \<or> x = st"
    by auto
  moreover from "11.prems" have "no_grp r"
    by simp
  ultimately show ?case
    using "11.IH" by blast
next
  case (12 n r b s g)
  then show ?case by simp
next
  case (13 r st)
  from "13.prems" have "x = st"
    by (simp split: if_splits)
  then show ?case
    by simp
next
  case (14 w b s g)
  then show ?case by (auto split: if_splits)
next
  case (15 b s g)
  then show ?case by (auto split: if_splits)
qed

lemma rmatch_Star_AnyCh_complete:
  "(rev p @ b, q, g) \<in> set (rmatch (Star AnyCh) (b, p @ q, g))"
proof (induction p arbitrary: b)
  case Nil
  show ?case
    by (subst rmatch_Star_set) simp
next
  case (Cons c p)
  have "(c # b, p @ q, g) \<in> set (filter (\<lambda>(b', s', g'). length s' < length ((c # p) @ q))
          (rmatch AnyCh (b, (c # p) @ q, g)))"
    by simp
  moreover have "(rev (c # p) @ b, q, g) \<in> set (rmatch (Star AnyCh) (c # b, p @ q, g))"
    using Cons.IH [of "c # b"] by simp
  ultimately show ?case
    unfolding rmatch_Star_set [of AnyCh b "(c # p) @ q" g] by blast
qed

lemma rmatch_Seq_set:
  "set (rmatch (Seq r1 r2) st) = (\<Union>y \<in> set (rmatch r1 st). set (rmatch r2 y))"
  by simp

lemma rmatch_Seq_nonempty:
  assumes "y \<in> set (rmatch r1 st)" and "rmatch r2 y \<noteq> []"
  shows "rmatch (Seq r1 r2) st \<noteq> []"
  using assms by auto

lemma re_match_nonempty:
  assumes "rmatch r ([], s, []) \<noteq> []"
  shows "\<exists>k. re_match r s = Some k"
  using assms by (cases "rmatch r ([], s, [])") (auto simp: re_match_def)

lemma re_match_mem:
  assumes "re_match r s = Some k"
  shows "k \<in> set (rmatch r ([], s, []))"
  using assms by (cases "rmatch r ([], s, [])") (simp_all add: re_match_def)

lemma EOL_sound:
  assumes "(b', s', g') \<in> set (rmatch EOL (b, s, g))"
  shows "g' = g \<and> (\<exists>e \<in> set eols. s = e @ s' \<and> b' = rev e @ b)"
  using assms
  by (cases s) (auto simp: EOL_def eols_def split: if_splits list.splits)

lemma EOL_complete:
  assumes "e \<in> set eols" and "e = [LF] \<longrightarrow> take 1 b \<noteq> [CR]"
  shows "(rev e @ b, s', g) \<in> set (rmatch EOL (b, e @ s', g))"
  using assms by (auto simp: EOL_def eols_def)

lemma terminator_sound:
  assumes "x \<in> set (rmatch (Seq (Lit ''endstream'') (Seq EOL (Seq (Lit ''endobj'') EOL))) (b, s, g))"
  shows "snd (snd x) = g \<and> (\<exists>t. is_terminator t \<and> s = t @ fst (snd x))"
proof -
  from assms obtain y1 where y1: "y1 \<in> set (rmatch (Lit ''endstream'') (b, s, g))"
    and x1: "x \<in> set (rmatch (Seq EOL (Seq (Lit ''endobj'') EOL)) y1)"
    unfolding rmatch_Seq_set [of "Lit ''endstream''"] by blast
  from y1 have s1: "s = ''endstream'' @ drop 9 s" and y1': "y1 = (rev ''endstream'' @ b, drop 9 s, g)"
    by (auto simp: rmatch_Lit split: if_splits)
  from x1 obtain y2 where y2: "y2 \<in> set (rmatch EOL y1)"
    and x2: "x \<in> set (rmatch (Seq (Lit ''endobj'') EOL) y2)"
    unfolding rmatch_Seq_set [of EOL] by blast
  obtain b2 s2 g2 where y2': "y2 = (b2, s2, g2)"
    by (cases y2) auto
  from EOL_sound [OF y2 [unfolded y1' y2']] obtain e1 where
    e1: "g2 = g" "e1 \<in> set eols" "drop 9 s = e1 @ s2"
    by blast
  from x2 obtain y3 where y3: "y3 \<in> set (rmatch (Lit ''endobj'') y2)"
    and x3: "x \<in> set (rmatch EOL y3)"
    unfolding rmatch_Seq_set [of "Lit ''endobj''"] by blast
  from y3 have s3: "s2 = ''endobj'' @ drop 6 s2" and y3': "y3 = (rev ''endobj'' @ b2, drop 6 s2, g2)"
    by (auto simp: y2' rmatch_Lit split: if_splits)
  obtain b4 s4 g4 where x': "x = (b4, s4, g4)"
    by (cases x) auto
  from EOL_sound [OF x3 [unfolded y3' x']] obtain e2 where
    e2: "g4 = g2" "e2 \<in> set eols" "drop 6 s2 = e2 @ s4"
    by blast
  have "s = (''endstream'' @ e1 @ ''endobj'' @ e2) @ s4"
    using s1 e1(3) s3 e2(3) by (metis append.assoc)
  moreover have "is_terminator (''endstream'' @ e1 @ ''endobj'' @ e2)"
    using e1(2) e2(2) unfolding is_terminator_def by blast
  ultimately show ?thesis
    using x' e1(1) e2(1) by auto
qed

lemma terminator_complete:
  assumes "is_terminator t"
  shows "rmatch (Seq (Lit ''endstream'') (Seq EOL (Seq (Lit ''endobj'') EOL))) (b, t @ s, g) \<noteq> []"
proof -
  from assms obtain e1 e2 where e: "e1 \<in> set eols" "e2 \<in> set eols"
    and t: "t = ''endstream'' @ e1 @ ''endobj'' @ e2"
    unfolding is_terminator_def by blast
  let ?b1 = "rev ''endstream'' @ b"
  let ?b2 = "rev e1 @ ?b1"
  let ?b3 = "rev ''endobj'' @ ?b2"
  have 1: "(?b1, e1 @ ''endobj'' @ e2 @ s, g) \<in> set (rmatch (Lit ''endstream'') (b, t @ s, g))"
    by (simp add: rmatch_Lit t)
  have 2: "(?b2, ''endobj'' @ e2 @ s, g) \<in> set (rmatch EOL (?b1, e1 @ ''endobj'' @ e2 @ s, g))"
    by (rule EOL_complete [OF e(1)]) simp
  have 3: "(?b3, e2 @ s, g) \<in> set (rmatch (Lit ''endobj'') (?b2, ''endobj'' @ e2 @ s, g))"
    by (simp add: rmatch_Lit)
  have 4: "(rev e2 @ ?b3, s, g) \<in> set (rmatch EOL (?b3, e2 @ s, g))"
    by (rule EOL_complete [OF e(2)]) simp
  from 3 4 have "(rev e2 @ ?b3, s, g) \<in> set (rmatch (Seq (Lit ''endobj'') EOL) (?b2, ''endobj'' @ e2 @ s, g))"
    unfolding rmatch_Seq_set [of "Lit ''endobj''"] by blast
  with 2 have "(rev e2 @ ?b3, s, g) \<in> set (rmatch (Seq EOL (Seq (Lit ''endobj'') EOL)) (?b1, e1 @ ''endobj'' @ e2 @ s, g))"
    unfolding rmatch_Seq_set [of EOL] by blast
  with 1 have "(rev e2 @ ?b3, s, g) \<in>
      set (rmatch (Seq (Lit ''endstream'') (Seq EOL (Seq (Lit ''endobj'') EOL))) (b, t @ s, g))"
    unfolding rmatch_Seq_set [of "Lit ''endstream''"] by blast
  then show ?thesis
    by (metis empty_iff empty_set)
qed

text \<open>
  On a text that holds a terminator, the pattern of the scan matches, and its group is a
  part of the text that a terminator follows.
\<close>

lemma endstream_match:
  assumes "dat = pre @ t @ post" and "is_terminator t"
  shows "\<exists>k t' post'. re_match RE_ENDSTREAM dat = Some k \<and>
           dat = group k 1 @ t' @ post' \<and> is_terminator t'"
proof -
  let ?T = "Seq (Lit ''endstream'') (Seq EOL (Seq (Lit ''endobj'') EOL))"
  let ?G = "Grp 1 (Star AnyCh)"
  have "(rev pre @ [], t @ post, []) \<in> set (rmatch (Star AnyCh) ([], pre @ t @ post, []))"
    by (rule rmatch_Star_AnyCh_complete)
  then have "(rev pre, t @ post, [(1, pre)]) \<in> set (rmatch ?G ([], dat, []))"
    using assms(1) by (force simp: image_iff)
  moreover have "rmatch ?T (rev pre, t @ post, [(1, pre)]) \<noteq> []"
    by (rule terminator_complete [OF assms(2)])
  ultimately have "rmatch RE_ENDSTREAM ([], dat, []) \<noteq> []"
    unfolding RE_ENDSTREAM_def by (rule rmatch_Seq_nonempty)
  from re_match_nonempty [OF this] obtain k where k: "re_match RE_ENDSTREAM dat = Some k" ..
  then have "k \<in> set (rmatch RE_ENDSTREAM ([], dat, []))"
    by (rule re_match_mem)
  then obtain y where y: "y \<in> set (rmatch ?G ([], dat, []))" and ky: "k \<in> set (rmatch ?T y)"
    unfolding RE_ENDSTREAM_def rmatch_Seq_set [of ?G] by blast
  from y obtain b' s' g' where z: "(b', s', g') \<in> set (rmatch (Star AnyCh) ([], dat, []))"
    and y': "y = (b', s', AList.update 1 (rev (take (length b') b')) g')"
    by auto
  from rmatch_sound [OF z] obtain t1 where t1: "dat = t1 @ s'" "b' = rev t1"
    by auto
  from rmatch_no_grp [OF _ z] have g': "g' = []"
    by simp
  from y' t1 g' have y'': "y = (rev t1, s', [(1, t1)])"
    by simp
  from terminator_sound [OF ky [unfolded y'']] obtain t' where
    t': "snd (snd k) = [(1, t1)]" "is_terminator t'" "s' = t' @ fst (snd k)"
    by blast
  from t'(1) have "group k 1 = t1"
    by (simp add: group_def)
  with t1(1) t'(2,3) k show ?thesis
    by blast
qed

section \<open>Facts about the dictionary parser and the serializer\<close>

lemma WS_sound:
  assumes "(b', s', g') \<in> set (rmatch WS (b, s, g))"
  shows "g' = g \<and> (\<exists>w. s = w @ s' \<and> w \<noteq> [] \<and> set w \<subseteq> set ws_chars \<and> b' = rev w @ b)"
  using assms
  by (cases s) (auto simp: WS_def EOL_def ws_chars_def split: if_splits list.splits)

lemma WS_none:
  assumes "s = [] \<or> hd s \<notin> set ws_chars"
  shows "rmatch WS (b, s, g) = []"
  using assms by (cases s) (auto simp: WS_def EOL_def ws_chars_def)

lemma WS_blank:
  assumes "c = SPC \<or> c = TAB"
  shows "rmatch WS (b, c # s, g) = [(c # b, s, g)]"
  using assms by (auto simp: WS_def EOL_def)

lemma Star_WS_none:
  assumes "s = [] \<or> hd s \<notin> set ws_chars"
  shows "rmatch (Star WS) (b, s, g) = [(b, s, g)]"
  by (subst rmatch.simps) (simp add: WS_none [OF assms])

lemma Star_WS_blank:
  assumes "c = SPC \<or> c = TAB"
  shows "rmatch (Star WS) (b, c # s, g) = rmatch (Star WS) (c # b, s, g) @ [(b, c # s, g)]"
  by (subst rmatch.simps) (simp add: WS_blank [OF assms])

lemma Star_WS_sound:
  "x \<in> set (rmatch (Star WS) (b, s, g)) \<Longrightarrow>
     snd (snd x) = g \<and> (\<exists>w. s = w @ fst (snd x) \<and> set w \<subseteq> set ws_chars)"
proof (induction "length s" arbitrary: b s rule: less_induct)
  case less
  show ?case
  proof (cases "x = (b, s, g)")
    case True
    then show ?thesis by simp
  next
    case False
    with less.prems obtain y where
      yf: "y \<in> set (filter (\<lambda>(b', s', g'). length s' < length s) (rmatch WS (b, s, g)))"
      and x: "x \<in> set (rmatch (Star WS) y)"
      unfolding rmatch_Star_set by blast
    obtain b1 s1 g1 where y: "y = (b1, s1, g1)"
      by (cases y) auto
    from yf y have len: "length s1 < length s" and m: "(b1, s1, g1) \<in> set (rmatch WS (b, s, g))"
      by auto
    from WS_sound [OF m] obtain w where w: "g1 = g" "s = w @ s1" "set w \<subseteq> set ws_chars"
      by blast
    from less.hyps [OF len x [unfolded y w(1)]] obtain w' where
      w': "snd (snd x) = g" "s1 = w' @ fst (snd x)" "set w' \<subseteq> set ws_chars"
      by blast
    have "s = (w @ w') @ fst (snd x)"
      using w(2) w'(2) by simp
    moreover have "set (w @ w') \<subseteq> set ws_chars"
      using w(3) w'(3) by simp
    ultimately show ?thesis
      using w'(1) by blast
  qed
qed

lemma Seq_first:
  assumes "rmatch r1 st = pre @ y # ys"
    and "\<forall>p \<in> set pre. rmatch r2 p = []"
    and "rmatch r2 y = x # ys'"
  shows "\<exists>ys''. rmatch (Seq r1 r2) st = x # ys''"
proof -
  have c: "concat (map (rmatch r2) pre) = []"
    using assms(2) by (induction pre) auto
  show ?thesis
    by (simp add: assms(1,3) c)
qed

lemma Seq_first0:
  assumes "rmatch r1 st = y # ys" and "rmatch r2 y = x # ys'"
  shows "\<exists>ys''. rmatch (Seq r1 r2) st = x # ys''"
  using Seq_first [of r1 st "[]" y ys r2 x ys'] assms by simp

lemma Star_NoneOf_first:
  assumes "set k \<inter> set cs = {}" and "u = [] \<or> hd u \<in> set cs"
  shows "\<exists>ys. rmatch (Star (NoneOf cs)) (b, k @ u, g) = (rev k @ b, u, g) # ys"
  using assms(1)
proof (induction k arbitrary: b)
  case Nil
  have "rmatch (NoneOf cs) (b, u, g) = []"
    using assms(2) by (cases u) auto
  then show ?case
    by (subst rmatch.simps) simp
next
  case (Cons x k)
  then have x: "x \<notin> set cs" and k: "set k \<inter> set cs = {}"
    by auto
  from Cons.IH [OF k, of "x # b"] obtain ys where
    ys: "rmatch (Star (NoneOf cs)) (x # b, k @ u, g) = (rev k @ x # b, u, g) # ys"
    by blast
  have "rmatch (NoneOf cs) (b, (x # k) @ u, g) = [(x # b, k @ u, g)]"
    using x by simp
  then show ?case
    by (subst rmatch.simps) (simp add: ys)
qed

lemma NAME_first:
  assumes "set k \<inter> set name_class = {}"
  shows "\<exists>ys. rmatch NAME (b, CHR ''/'' # k @ SPC # s, g) =
           (rev k @ CHR ''/'' # b, SPC # s, AList.update 1 k g) # ys"
proof -
  let ?cs = "''<>%[]/ '' @ [TAB, CR, LF]"
  let ?st = "(CHR ''/'' # b, k @ SPC # s, g)"
  let ?y = "(rev k @ CHR ''/'' # b, SPC # s, AList.update 1 k g)"
  from assms have "set k \<inter> set ?cs = {}"
    by (simp add: name_class_def)
  from Star_NoneOf_first [OF this, of "SPC # s" "CHR ''/'' # b" g] obtain ys where
    ys: "rmatch (Star (NoneOf ?cs)) ?st = (rev k @ CHR ''/'' # b, SPC # s, g) # ys"
    by auto
  have g: "\<exists>ys'. rmatch (Grp 1 (Star (NoneOf ?cs))) ?st = ?y # ys'"
    using ys by simp
  have "rmatch (Alt DLM Eos) ?y \<noteq> []"
    by (simp add: DLM_def WS_def)
  then have a: "rmatch (Ahead (Alt DLM Eos)) ?y = [?y]"
    by simp
  from g obtain ys' where "rmatch (Grp 1 (Star (NoneOf ?cs))) ?st = ?y # ys'"
    by blast
  from Seq_first0 [OF this a] obtain ys'' where
    "rmatch (Seq (Grp 1 (Star (NoneOf ?cs))) (Ahead (Alt DLM Eos))) ?st = ?y # ys''"
    by blast
  then show ?thesis
    by (simp add: NAME_def)
qed

lemma splits_mem:
  "p \<in> set (splits b v u g) \<Longrightarrow>
     \<exists>v1 v2. v = v1 @ v2 \<and> v2 \<noteq> [] \<and> p = (rev v1 @ b, v2 @ u, g)"
proof (induction v arbitrary: b)
  case Nil
  then show ?case by simp
next
  case (Cons x v)
  from Cons.prems have "p = (b, x # v @ u, g) \<or> p \<in> set (splits (x # b) v u g)"
    by simp
  then show ?case
  proof
    assume "p = (b, x # v @ u, g)"
    then show ?thesis
      by (intro exI [of _ "[]"] exI [of _ "x # v"]) simp
  next
    assume "p \<in> set (splits (x # b) v u g)"
    from Cons.IH [OF this] obtain v1 v2 where
      "v = v1 @ v2" "v2 \<noteq> []" "p = (rev v1 @ x # b, v2 @ u, g)"
      by blast
    then show ?thesis
      by (intro exI [of _ "x # v1"] exI [of _ v2]) simp
  qed
qed

lemma LazyStar_AnyNoNL:
  assumes "LF \<notin> set v"
  shows "\<exists>ys. rmatch (LazyStar AnyNoNL) (b, v @ u, g) = splits b v u g @ (rev v @ b, u, g) # ys"
  using assms
proof (induction v arbitrary: b)
  case Nil
  show ?case
    by (subst rmatch.simps) simp
next
  case (Cons x v)
  then have x: "x \<noteq> LF" and v: "LF \<notin> set v"
    by auto
  from Cons.IH [OF v, of "x # b"] obtain ys where
    ys: "rmatch (LazyStar AnyNoNL) (x # b, v @ u, g) = splits (x # b) v u g @ (rev v @ x # b, u, g) # ys"
    by blast
  have "rmatch AnyNoNL (b, (x # v) @ u, g) = [(x # b, v @ u, g)]"
    using x by simp
  then show ?case
    by (subst rmatch.simps) (simp add: ys)
qed

lemma dict_end_no_match:
  assumes "ws0 = [] \<or> ws0 = [SPC]"
  shows "re_match RE_DICT_END (ws0 @ CHR ''/'' # s) = None"
proof -
  have a1: "rmatch (Star WS) (rev ws0, CHR ''/'' # s, []) = [(rev ws0, CHR ''/'' # s, [])]"
    by (rule Star_WS_none) (simp add: ws_chars_def)
  have l: "\<And>b. rmatch (Lit ''>>'') (b, CHR ''/'' # s, []) = []"
    "\<And>b. rmatch (Lit ''>>'') (b, SPC # CHR ''/'' # s, []) = []"
    by (simp_all add: rmatch_Lit)
  from assms have "rmatch (Seq (Star WS) (Lit ''>>'')) ([], ws0 @ CHR ''/'' # s, []) = []"
  proof
    assume "ws0 = []"
    with a1 l show ?thesis
      by simp
  next
    assume w: "ws0 = [SPC]"
    have "rmatch (Star WS) ([], SPC # CHR ''/'' # s, []) =
        rmatch (Star WS) ([SPC], CHR ''/'' # s, []) @ [([], SPC # CHR ''/'' # s, [])]"
      by (rule Star_WS_blank) simp
    with a1 w l show ?thesis
      by simp
  qed
  then show ?thesis
    by (simp add: re_match_def RE_DICT_END_def del: rmatch.simps)
qed

lemma Star_OneOf_complete:
  assumes "set p \<subseteq> set cs"
  shows "(rev p @ b, q, g) \<in> set (rmatch (Star (OneOf cs)) (b, p @ q, g))"
  using assms
proof (induction p arbitrary: b)
  case Nil
  show ?case
    by (subst rmatch_Star_set) simp
next
  case (Cons c p)
  then have c: "c \<in> set cs" and p: "set p \<subseteq> set cs"
    by auto
  have "(c # b, p @ q, g) \<in> set (filter (\<lambda>(b', s', g'). length s' < length ((c # p) @ q))
          (rmatch (OneOf cs) (b, (c # p) @ q, g)))"
    using c by simp
  moreover have "(rev (c # p) @ b, q, g) \<in> set (rmatch (Star (OneOf cs)) (c # b, p @ q, g))"
    using Cons.IH [OF p, of "c # b"] by simp
  ultimately show ?case
    unfolding rmatch_Star_set [of "OneOf cs" b "(c # p) @ q" g] by blast
qed

lemma Star_OneOf_sound:
  "x \<in> set (rmatch (Star (OneOf cs)) (b, s, g)) \<Longrightarrow>
     \<exists>w. s = w @ fst (snd x) \<and> set w \<subseteq> set cs"
proof (induction "length s" arbitrary: b s rule: less_induct)
  case less
  show ?case
  proof (cases "x = (b, s, g)")
    case True
    then show ?thesis by simp
  next
    case False
    with less.prems obtain y where
      yf: "y \<in> set (filter (\<lambda>(b', s', g'). length s' < length s) (rmatch (OneOf cs) (b, s, g)))"
      and x: "x \<in> set (rmatch (Star (OneOf cs)) y)"
      unfolding rmatch_Star_set by blast
    from yf obtain c s1 where s: "s = c # s1" "c \<in> set cs" "y = (c # b, s1, g)"
      by (cases s) (auto split: if_splits)
    have len: "length s1 < length s"
      by (simp add: s(1))
    from less.hyps [OF len x [unfolded s(3)]] obtain w' where
      w': "s1 = w' @ fst (snd x)" "set w' \<subseteq> set cs"
      by blast
    have "s = (c # w') @ fst (snd x)"
      using s(1) w'(1) by simp
    moreover have "set (c # w') \<subseteq> set cs"
      using s(2) w'(2) by simp
    ultimately show ?thesis
      by blast
  qed
qed

lemma RE_INT_digits:
  assumes "d \<noteq> []" and "set d \<subseteq> set digits"
  shows "re_match RE_INT d \<noteq> None"
proof -
  from assms obtain c d' where d: "d = c # d'"
    by (cases d) auto
  with assms have c: "c \<in> set digits" and d': "set d' \<subseteq> set digits"
    by auto
  have 1: "([c], d', []) \<in> set (rmatch Digit ([], d, []))"
    using c by (simp add: Digit_def digits_def d)
  have 2: "(rev d' @ [c], [], []) \<in> set (rmatch (Star Digit) ([c], d' @ [], []))"
    unfolding Digit_def using d' by (intro Star_OneOf_complete) (simp add: digits_def)
  from 1 2 have "(rev d' @ [c], [], []) \<in> set (rmatch (Seq Digit (Star Digit)) ([], d, []))"
    unfolding rmatch_Seq_set by auto
  moreover have "rmatch Eos (rev d' @ [c], [], []) \<noteq> []"
    by simp
  ultimately have "rmatch RE_INT ([], d, []) \<noteq> []"
    unfolding RE_INT_def Plus_def by (rule rmatch_Seq_nonempty)
  from re_match_nonempty [OF this] show ?thesis
    by auto
qed

lemma RE_INT_not_digits:
  assumes "\<not> set s \<subseteq> set digits" and "LF \<notin> set s"
  shows "re_match RE_INT s = None"
proof (rule ccontr)
  assume "re_match RE_INT s \<noteq> None"
  then obtain m where "re_match RE_INT s = Some m"
    by auto
  from re_match_mem [OF this] obtain y where
    y: "y \<in> set (rmatch (Seq Digit (Star Digit)) ([], s, []))" and m: "m \<in> set (rmatch Eos y)"
    unfolding RE_INT_def Plus_def rmatch_Seq_set [of "Seq Digit (Star Digit)"] by blast
  from y obtain y1 where y1: "y1 \<in> set (rmatch Digit ([], s, []))" and y2: "y \<in> set (rmatch (Star Digit) y1)"
    unfolding rmatch_Seq_set by blast
  from y1 obtain c s1 where s: "s = c # s1" "c \<in> set digits" "y1 = ([c], s1, [])"
    by (cases s) (auto simp: Digit_def digits_def split: if_splits)
  from Star_OneOf_sound [OF y2 [unfolded s(3) Digit_def]] obtain w where
    w: "s1 = w @ fst (snd y)" "set w \<subseteq> set digits"
    by (auto simp: digits_def)
  obtain yb sy gy where y': "y = (yb, sy, gy)"
    by (cases y) auto
  from m y' have "sy = [] \<or> sy = [LF]"
    by (auto split: if_splits)
  with assms(2) s(1) w(1) y' have "sy = []"
    by auto
  with s w y' assms(1) show False
    by auto
qed

declare str_nat.simps [simp del]

lemma digit_table:
  "list_all (\<lambda>d. digit_chr d \<in> set digits \<and> digit_val (digit_chr d) = int d) [0, 1, 2, 3, 4, 5, 6, 7, 8, 9]"
  by code_simp

lemma digit_chr_ok:
  assumes "d < 10"
  shows "digit_chr d \<in> set digits \<and> digit_val (digit_chr d) = int d"
proof -
  from assms have "d \<in> set [0, 1, 2, 3, 4, 5, 6, 7, 8, 9]"
    by (simp only: set_simps) (simp, arith)
  with digit_table show ?thesis
    unfolding list_all_iff by blast
qed

lemma str_nat_digits: "str_nat n \<noteq> [] \<and> set (str_nat n) \<subseteq> set digits"
proof (induction n rule: str_nat.induct)
  case (1 n)
  show ?case
  proof (cases "n < 10")
    case True
    then show ?thesis
      using digit_chr_ok [of n] by (subst (1 2) str_nat.simps) simp
  next
    case False
    then show ?thesis
      using 1 digit_chr_ok [of "n mod 10"] by (subst (1 2) str_nat.simps) simp
  qed
qed

lemma int_of_digits_snoc: "int_of_digits (s @ [c]) = 10 * int_of_digits s + digit_val c"
  by (simp add: int_of_digits_def)

lemma int_of_digits_str_nat: "int_of_digits (str_nat n) = int n"
proof (induction n rule: str_nat.induct)
  case (1 n)
  show ?case
  proof (cases "n < 10")
    case True
    then show ?thesis
      using digit_chr_ok [of n] by (subst str_nat.simps) (simp add: int_of_digits_def)
  next
    case False
    have "int_of_digits (str_nat n) =
        10 * int_of_digits (str_nat (n div 10)) + digit_val (digit_chr (n mod 10))"
      using False by (subst str_nat.simps) (simp add: int_of_digits_snoc)
    also have "\<dots> = 10 * int (n div 10) + int (n mod 10)"
      using 1 [OF False] digit_chr_ok [of "n mod 10"] by simp
    also have "\<dots> = int n"
      by (simp add: zdiv_int zmod_int)
    finally show ?thesis .
  qed
qed

lemma update_new:
  assumes "k \<notin> fst ` set ret"
  shows "AList.update k v ret = ret @ [(k, v)]"
  using assms by (induction ret) auto

lemma foldl_update_distinct:
  assumes "distinct (map fst (ret @ m))"
  shows "foldl (\<lambda>r (k, v). AList.update k v r) ret m = ret @ m"
  using assms
proof (induction m arbitrary: ret)
  case Nil
  then show ?case by simp
next
  case (Cons a m)
  obtain k v where a: "a = (k, v)"
    by (cases a)
  from Cons.prems have "k \<notin> fst ` set ret"
    by (auto simp: a)
  then have u: "AList.update k v ret = ret @ [(k, v)]"
    by (rule update_new)
  from Cons.prems have "distinct (map fst ((ret @ [(k, v)]) @ m))"
    by (simp add: a)
  from Cons.IH [OF this] show ?case
    by (simp add: a u)
qed

lemma items_start:
  "concat (map item_text m) = [] \<or> (\<exists>r. concat (map item_text m) = CHR ''/'' # r)"
  by (cases m) (auto simp: item_text_def)

lemma get_dict_loop_int:
  assumes "line \<noteq> []"
    and "re_match RE_DICT_END line = None"
    and "re_match RE_DICT_ITEM line = Some r"
    and "group r 2 \<noteq> ''<<''"
    and "re_match RE_INT (group r 2) \<noteq> None"
  shows "get_dict_loop line ret ws =
           get_dict_loop (drop (m_end r) line)
             (AList.update (group r 1) (PInt (int_of_digits (group r 2))) ret) ws"
  by (subst get_dict_loop.simps) (simp add: assms)

lemma get_dict_loop_str:
  assumes "line \<noteq> []"
    and "re_match RE_DICT_END line = None"
    and "re_match RE_DICT_ITEM line = Some r"
    and "group r 2 \<noteq> ''<<''"
    and "re_match RE_INT (group r 2) = None"
    and "\<not> startswith (group r 2) ''[''"
  shows "get_dict_loop line ret ws =
           get_dict_loop (drop (m_end r) line) (AList.update (group r 1) (PStr (group r 2)) ret) ws"
  by (subst get_dict_loop.simps) (simp add: assms)

lemma get_dict_loop_empty:
  "get_dict_loop [] ret ws = Some (ret, [], ws)"
  by (subst get_dict_loop.simps) simp

lemma stop_here_Cons:
  "stop_here (c # s) = (c = CHR ''/'' \<or> (c = CHR ''>'' \<and> (\<exists>s'. s = CHR ''>'' # s')))"
  by (cases s) (auto simp: stop_here_def startswith_def)

lemma stop_here_Nil [simp]: "\<not> stop_here []"
  by (simp add: stop_here_def startswith_def)

lemma stop_here_append:
  assumes "stop_here s"
  shows "stop_here (s @ w)"
proof -
  from assms obtain c s' where s: "s = c # s'"
    by (cases s) auto
  with assms show ?thesis
    by (auto simp: stop_here_Cons)
qed

lemma until_stop_le: "until_stop t \<le> length t"
  by (induction t) auto

lemma stop_at:
  assumes "until_stop t < length t"
  shows "stop_here (drop (until_stop t) t @ w)"
  using assms
proof (induction t)
  case Nil
  then show ?case by simp
next
  case (Cons c t)
  show ?case
  proof (cases "stop_here (c # t)")
    case True
    then show ?thesis
      using stop_here_append [of "c # t" w] by simp
  next
    case False
    with Cons show ?thesis
      by simp
  qed
qed

lemma nostop_inside:
  assumes "take (until_stop t) t = a @ z" and "z \<noteq> []"
    and "w = [] \<or> hd w \<noteq> CHR ''>''"
  shows "\<not> stop_here (z @ drop (until_stop t) t @ w)"
  using assms(1)
proof (induction t arbitrary: a)
  case Nil
  with assms(2) show ?case by simp
next
  case (Cons c t)
  have ns: "\<not> stop_here (c # t)"
  proof
    assume "stop_here (c # t)"
    with Cons.prems assms(2) show False
      by simp
  qed
  then have u: "until_stop (c # t) = Suc (until_stop t)"
    by simp
  show ?case
  proof (cases a)
    case Nil
    with Cons.prems u have z: "z = c # take (until_stop t) t"
      by (simp del: until_stop.simps)
    then have "z @ drop (until_stop (c # t)) (c # t) @ w = c # t @ w"
      by (simp add: u del: until_stop.simps)
    moreover have "\<not> stop_here (c # t @ w)"
    proof (cases t)
      case Nil
      with ns assms(3) show ?thesis
        by (cases w) (auto simp: stop_here_Cons)
    next
      case (Cons d t')
      with ns show ?thesis
        by (auto simp: stop_here_Cons)
    qed
    ultimately show ?thesis
      by (simp only: not_False_eq_True)
  next
    case (Cons c' a')
    with Cons.prems u have "take (until_stop t) t = a' @ z"
      by (simp del: until_stop.simps)
    from Cons.IH [OF this] show ?thesis
      by (simp add: u del: until_stop.simps)
  qed
qed

lemma item_ahead_ok:
  assumes "s = [] \<or> stop_here s"
  shows "rmatch (Ahead (Alt (Chr CHR ''/'') (Alt (Lit ''>>'') Eos))) (b, s, g) = [(b, s, g)]"
  using assms by (cases s) (auto simp: stop_here_Cons)

lemma item_ahead_fail:
  assumes "s \<noteq> []" and "hd s \<noteq> LF" and "\<not> stop_here s"
  shows "rmatch (Ahead (Alt (Chr CHR ''/'') (Alt (Lit ''>>'') Eos))) (b, s, g) = []"
proof -
  from assms(1) obtain c s' where s: "s = c # s'"
    by (cases s) auto
  with assms(2,3) show ?thesis
    by (cases s') (auto simp: stop_here_Cons)
qed

lemma item_tail_dead:
  assumes v2: "v2 \<noteq> []" "last v2 \<notin> set ws_chars" "LF \<notin> set v2"
    and ns: "\<forall>a z. v2 = a @ z \<longrightarrow> z \<noteq> [] \<longrightarrow> \<not> stop_here (z @ u)"
  shows "rmatch (Seq (Star WS) (Ahead (Alt (Chr CHR ''/'') (Alt (Lit ''>>'') Eos))))
           (bb, v2 @ u, gg) = []"
proof (rule ccontr)
  let ?H = "Ahead (Alt (Chr CHR ''/'') (Alt (Lit ''>>'') Eos))"
  assume "rmatch (Seq (Star WS) ?H) (bb, v2 @ u, gg) \<noteq> []"
  then obtain x where x: "x \<in> set (rmatch (Star WS) (bb, v2 @ u, gg))"
    and h: "rmatch ?H x \<noteq> []"
    by auto
  obtain bx rx gx where x': "x = (bx, rx, gx)"
    by (cases x) auto
  from Star_WS_sound [OF x] x' obtain w where w: "v2 @ u = w @ rx" "set w \<subseteq> set ws_chars"
    by auto
  from w(1) obtain z where z: "(v2 = w @ z \<and> z @ u = rx) \<or> (v2 @ z = w \<and> u = z @ rx)"
    by (auto simp: append_eq_append_conv2)
  have nw: "\<not> set v2 \<subseteq> set w"
    using v2 w(2) by (meson last_in_set subsetD)
  from z nw have d: "v2 = w @ z" "rx = z @ u"
    by auto
  from d(1) nw have zne: "z \<noteq> []"
    by auto
  then obtain c z' where c: "z = c # z'"
    by (cases z) auto
  have "c \<in> set v2"
    by (simp add: d(1) c)
  with v2(3) have "hd (z @ u) \<noteq> LF"
    by (auto simp: c)
  moreover have "z @ u \<noteq> []"
    using zne by simp
  moreover have "\<not> stop_here (z @ u)"
    using ns d(1) zne by blast
  ultimately have "rmatch ?H (bx, z @ u, gx) = []"
    by (intro item_ahead_fail)
  with h x' d(2) show False
    by simp
qed

lemma item_value_first:
  assumes v: "v = x # v'" "LF \<notin> set v" "last v \<notin> set ws_chars"
    and ns: "\<forall>a z. v' = a @ z \<longrightarrow> z \<noteq> [] \<longrightarrow> \<not> stop_here (z @ e @ u)"
    and tail: "(e = [SPC] \<and> (u = [] \<or> stop_here u)) \<or> (e = [] \<and> stop_here u)"
  shows "\<exists>ys. rmatch (Seq (Grp 2 (Seq AnyNoNL (LazyStar AnyNoNL)))
                   (Seq (Star WS) (Ahead (Alt (Chr CHR ''/'') (Alt (Lit ''>>'') Eos)))))
                 (b, v @ e @ u, g) =
               (rev e @ rev v @ b, u, AList.update 2 v g) # ys"
proof -
  let ?H = "Ahead (Alt (Chr CHR ''/'') (Alt (Lit ''>>'') Eos))"
  let ?K = "Seq (Star WS) ?H"
  let ?u = "e @ u"
  let ?upd = "\<lambda>(b', s', g'). (b', s', AList.update 2 (rev (take (length b' - length b) b')) g')"
  from v have lf: "x \<noteq> LF" "LF \<notin> set v'"
    by auto
  from LazyStar_AnyNoNL [OF lf(2), of "x # b" ?u g] obtain ys where
    ys: "rmatch (LazyStar AnyNoNL) (x # b, v' @ ?u, g) =
           splits (x # b) v' ?u g @ (rev v' @ x # b, ?u, g) # ys"
    by blast
  have inner: "rmatch (Seq AnyNoNL (LazyStar AnyNoNL)) (b, v @ ?u, g) =
      splits (x # b) v' ?u g @ (rev v' @ x # b, ?u, g) # ys"
    using lf(1) ys by (simp add: v(1))
  have fin: "?upd (rev v' @ x # b, ?u, g) = (rev v @ b, ?u, AList.update 2 v g)"
    by (simp add: v(1))
  have grp: "rmatch (Grp 2 (Seq AnyNoNL (LazyStar AnyNoNL))) (b, v @ ?u, g) =
      map ?upd (splits (x # b) v' ?u g) @ (rev v @ b, ?u, AList.update 2 v g) # map ?upd ys"
    unfolding rmatch.simps(12) inner using fin by simp
  have dead: "\<forall>p \<in> set (map ?upd (splits (x # b) v' ?u g)). rmatch ?K p = []"
  proof
    fix p
    assume "p \<in> set (map ?upd (splits (x # b) v' ?u g))"
    then obtain q where q: "q \<in> set (splits (x # b) v' ?u g)" and p: "p = ?upd q"
      by auto
    from splits_mem [OF q] obtain v1 v2 where
      s: "v' = v1 @ v2" "v2 \<noteq> []" "q = (rev v1 @ x # b, v2 @ ?u, g)"
      by blast
    have l: "last v2 \<notin> set ws_chars"
      using v s(1,2) by simp
    have c: "LF \<notin> set v2"
      using lf(2) s(1) by auto
    have n2: "\<forall>a z. v2 = a @ z \<longrightarrow> z \<noteq> [] \<longrightarrow> \<not> stop_here (z @ ?u)"
    proof (intro allI impI)
      fix a z
      assume "v2 = a @ z" and z: "z \<noteq> []"
      then have "v' = (v1 @ a) @ z"
        by (simp add: s(1))
      with ns z show "\<not> stop_here (z @ ?u)"
        by blast
    qed
    have "p = (rev v1 @ x # b, v2 @ ?u,
        AList.update 2 (rev (take (length (rev v1 @ x # b) - length b) (rev v1 @ x # b))) g)"
      unfolding p s(3) by (simp only: prod.case)
    then show "rmatch ?K p = []"
      using item_tail_dead [OF s(2) l c n2] by (simp only:)
  qed
  let ?G = "AList.update 2 v g"
  have k: "\<exists>ys'. rmatch ?K (rev v @ b, ?u, ?G) = (rev e @ rev v @ b, u, ?G) # ys'"
    using tail
  proof
    assume t: "e = [SPC] \<and> (u = [] \<or> stop_here u)"
    then have hu: "u = [] \<or> hd u \<notin> set ws_chars"
      by (cases u) (auto simp: stop_here_Cons ws_chars_def)
    have w: "rmatch (Star WS) (SPC # rev v @ b, u, ?G) = [(SPC # rev v @ b, u, ?G)]"
      by (rule Star_WS_none [OF hu])
    have c1: "rmatch (Star WS) (rev v @ b, SPC # u, ?G) =
        (SPC # rev v @ b, u, ?G) # [(rev v @ b, SPC # u, ?G)]"
      using Star_WS_blank [of SPC "rev v @ b" u ?G] w by simp
    have c2: "rmatch ?H (SPC # rev v @ b, u, ?G) = (SPC # rev v @ b, u, ?G) # []"
      using t by (intro item_ahead_ok) simp
    from Seq_first0 [OF c1 c2] t show ?thesis
      by simp
  next
    assume t: "e = [] \<and> stop_here u"
    then have hu: "u = [] \<or> hd u \<notin> set ws_chars"
      by (cases u) (auto simp: stop_here_Cons ws_chars_def)
    have c1: "rmatch (Star WS) (rev v @ b, u, ?G) = (rev v @ b, u, ?G) # []"
      by (rule Star_WS_none [OF hu])
    have c2: "rmatch ?H (rev v @ b, u, ?G) = (rev v @ b, u, ?G) # []"
      using t by (intro item_ahead_ok) simp
    from Seq_first0 [OF c1 c2] t show ?thesis
      by simp
  qed
  then obtain ys' where "rmatch ?K (rev v @ b, ?u, ?G) = (rev e @ rev v @ b, u, ?G) # ys'"
    by blast
  from Seq_first [OF grp dead this] show ?thesis .
qed

lemma item_match:
  assumes k: "set k \<inter> set name_class = {}"
    and v: "v = x # v'" "x \<notin> set ws_chars" "LF \<notin> set v" "last v \<notin> set ws_chars"
    and ns: "\<forall>a z. v' = a @ z \<longrightarrow> z \<noteq> [] \<longrightarrow> \<not> stop_here (z @ e @ u)"
    and tail: "(e = [SPC] \<and> (u = [] \<or> stop_here u)) \<or> (e = [] \<and> stop_here u)"
    and lead: "ws0 = [] \<or> ws0 = [SPC]"
  shows "re_match RE_DICT_ITEM (ws0 @ CHR ''/'' # k @ SPC # v @ e @ u) =
           Some (rev e @ rev v @ SPC # rev k @ CHR ''/'' # rev ws0, u, [(1, k), (2, v)])"
proof -
  let ?H = "Ahead (Alt (Chr CHR ''/'') (Alt (Lit ''>>'') Eos))"
  let ?V = "Grp 2 (Seq AnyNoNL (LazyStar AnyNoNL))"
  let ?R4 = "Seq ?V (Seq (Star WS) ?H)"
  let ?R3 = "Seq (Star WS) ?R4"
  let ?R2 = "Seq NAME ?R3"
  let ?t = "v @ e @ u"
  let ?L1 = "CHR ''/'' # k @ SPC # ?t"
  let ?b2 = "rev k @ CHR ''/'' # rev ws0"
  let ?z = "(rev e @ rev v @ SPC # ?b2, u, [(1, k), (2, v)])"
  have hv: "hd ?t \<notin> set ws_chars"
    using v(1,2) by simp
  have a1: "rmatch (Star WS) (rev ws0, ?L1, []) = [(rev ws0, ?L1, [])]"
    by (rule Star_WS_none) (simp add: ws_chars_def)
  have a: "\<exists>ys. rmatch (Star WS) ([], ws0 @ ?L1, []) = (rev ws0, ?L1, []) # ys"
    using lead
  proof
    assume "ws0 = []"
    with a1 show ?thesis by simp
  next
    assume w: "ws0 = [SPC]"
    have "rmatch (Star WS) ([], SPC # ?L1, []) = rmatch (Star WS) ([SPC], ?L1, []) @ [([], SPC # ?L1, [])]"
      by (rule Star_WS_blank) simp
    with a1 w show ?thesis by simp
  qed
  from NAME_first [OF k, of "rev ws0" ?t "[]"] obtain ys2 where
    n: "rmatch NAME (rev ws0, ?L1, []) = (?b2, SPC # ?t, [(1, k)]) # ys2"
    by auto
  have b1: "rmatch (Star WS) (SPC # ?b2, ?t, [(1, k)]) = [(SPC # ?b2, ?t, [(1, k)])]"
    by (rule Star_WS_none) (use hv in simp)
  have b: "rmatch (Star WS) (?b2, SPC # ?t, [(1, k)]) =
      (SPC # ?b2, ?t, [(1, k)]) # [(?b2, SPC # ?t, [(1, k)])]"
    using Star_WS_blank [of SPC ?b2 ?t "[(1, k)]"] b1 by simp
  from item_value_first [OF v(1,3,4) ns tail, of "SPC # ?b2" "[(1, k)]"] obtain ys4 where
    r4: "rmatch ?R4 (SPC # ?b2, ?t, [(1, k)]) = ?z # ys4"
    by auto
  from Seq_first0 [OF b r4] obtain ys3 where
    r3: "rmatch ?R3 (?b2, SPC # ?t, [(1, k)]) = ?z # ys3"
    by blast
  from Seq_first0 [OF n r3] obtain ys2' where
    r2: "rmatch ?R2 (rev ws0, ?L1, []) = ?z # ys2'"
    by blast
  from a obtain ys1 where "rmatch (Star WS) ([], ws0 @ ?L1, []) = (rev ws0, ?L1, []) # ys1"
    by blast
  from Seq_first0 [OF this r2] obtain ys0 where
    "rmatch (Seq (Star WS) ?R2) ([], ws0 @ ?L1, []) = ?z # ys0"
    by blast
  then have "rmatch RE_DICT_ITEM ([], ws0 @ ?L1, []) = ?z # ys0"
    unfolding RE_DICT_ITEM_def .
  then show ?thesis
    unfolding re_match_def by (simp only: list.case)
qed

declare closes.simps [simp del]

lemma py_find_from_bound:
  assumes "0 \<le> i"
  shows "py_find_from l [c] i < i + int (length l) \<or> (l = [] \<and> py_find_from l [c] i < 0)"
  using assms
proof (induction l arbitrary: i)
  case Nil
  then show ?case by simp
next
  case (Cons x l)
  from Cons.prems have "0 \<le> i + 1"
    by simp
  from Cons.IH [OF this] Cons.prems show ?case
    by auto
qed

lemma py_find_from_append:
  assumes "0 \<le> i" and "0 \<le> py_find_from l [c] i"
  shows "py_find_from (l @ w) [c] i = py_find_from l [c] i"
  using assms
proof (induction l arbitrary: i)
  case Nil
  then show ?case by simp
next
  case (Cons x l)
  show ?case
  proof (cases "x = c")
    case True
    then show ?thesis
      by (simp add: startswith_def)
  next
    case False
    with Cons.prems have "0 \<le> i + 1" "0 \<le> py_find_from l [c] (i + 1)"
      by (simp_all add: startswith_def)
    from Cons.IH [OF this] False show ?thesis
      by (simp add: startswith_def)
  qed
qed

lemma closes_array_loop:
  assumes "closes v l"
  shows "array_loop v (l @ w) = Some (v @ l, w)"
  using assms
proof (induction v l rule: closes.induct)
  case (1 v l)
  let ?n = "nat (py_find l '']'' + 1)"
  show ?case
  proof (cases "py_count v (CHR '']'') < py_count v (CHR ''['')")
    case True
    with "1.prems" have f: "\<not> py_find l '']'' < 0"
      and c: "closes (v @ take ?n l) (drop ?n l)"
      by (subst (asm) closes.simps, simp split: if_splits)+
    from f have f0: "0 \<le> py_find_from l '']'' 0"
      by (simp add: py_find_def)
    from py_find_from_bound [of 0 l "CHR '']''"] f0 have "py_find_from l '']'' 0 < int (length l)"
      by auto
    with f0 have n: "?n \<le> length l"
      by (simp add: py_find_def)
    have e: "py_find (l @ w) '']'' = py_find l '']''"
      unfolding py_find_def by (rule py_find_from_append [OF _ f0]) simp
    from "1.IH" [OF True f c] have "array_loop (v @ take ?n l) (drop ?n l @ w) = Some ((v @ take ?n l) @ drop ?n l, w)" .
    then have "array_loop (v @ take ?n l) (drop ?n l @ w) = Some (v @ l, w)"
      by simp
    with True n e show ?thesis
      by (subst array_loop.simps) simp
  next
    case False
    with "1.prems" have "l = []"
      by (subst (asm) closes.simps) simp
    with False show ?thesis
      by (subst array_loop.simps) simp
  qed
qed

lemma get_dict_loop_arr:
  assumes "line \<noteq> []"
    and "re_match RE_DICT_END line = None"
    and "re_match RE_DICT_ITEM line = Some r"
    and "group r 2 \<noteq> ''<<''"
    and "re_match RE_INT (group r 2) = None"
    and "startswith (group r 2) ''[''"
    and "array_loop (group r 2) (drop (m_end r) line) = Some (val, line')"
  shows "get_dict_loop line ret ws =
           get_dict_loop line' (AList.update (group r 1) (PStr val) ret) ws"
  by (subst get_dict_loop.simps) (simp add: assms)

lemma captured_left_over:
  assumes "s \<noteq> []"
  shows "captured s = hd s # take (until_stop (tl s)) (tl s)"
    and "left_over s = drop (until_stop (tl s)) (tl s)"
    and "captured s @ left_over s = s"
  using assms by (cases s; simp add: captured_def left_over_def)+

lemma item_match_value:
  assumes k: "name_ok k"
    and s: "s \<noteq> []" "hd s \<notin> set ws_chars" "LF \<notin> set (captured s)"
      "last (captured s) \<notin> set ws_chars"
    and rest: "rest = [] \<or> (\<exists>r. rest = CHR ''/'' # r)"
    and lead: "ws0 = [] \<or> ws0 = [SPC]"
  shows "\<exists>z. re_match RE_DICT_ITEM (ws0 @ CHR ''/'' # k @ SPC # s @ SPC # rest) = Some z \<and>
           group z 1 = k \<and> group z 2 = captured s \<and>
           drop (m_end z) (ws0 @ CHR ''/'' # k @ SPC # s @ SPC # rest) =
             (if left_over s = [] then rest else left_over s @ SPC # rest)"
proof -
  let ?t = "tl s"
  let ?v' = "take (until_stop ?t) ?t"
  let ?v = "captured s"
  let ?l = "left_over s"
  let ?e = "if ?l = [] then [SPC] else []"
  let ?u = "if ?l = [] then rest else ?l @ SPC # rest"
  let ?line = "ws0 @ CHR ''/'' # k @ SPC # s @ SPC # rest"
  let ?z = "(rev ?e @ rev ?v @ SPC # rev k @ CHR ''/'' # rev ws0, ?u, [(1, k), (2, ?v)])"
  from k have k': "set k \<inter> set name_class = {}"
    by (auto simp: name_ok_def list_all_iff)
  note cl = captured_left_over [OF s(1)]
  have eu: "?e @ ?u = ?l @ SPC # rest"
    by simp
  have ns: "\<forall>a z. ?v' = a @ z \<longrightarrow> z \<noteq> [] \<longrightarrow> \<not> stop_here (z @ ?e @ ?u)"
  proof (intro allI impI)
    fix a z
    assume "?v' = a @ z" and "z \<noteq> []"
    from nostop_inside [OF this, of "SPC # rest"] have "\<not> stop_here (z @ ?l @ SPC # rest)"
      by (simp add: cl(2))
    then show "\<not> stop_here (z @ ?e @ ?u)"
      by (simp only: eu not_False_eq_True)
  qed
  have rs: "rest = [] \<or> stop_here rest"
    using rest by (auto simp: stop_here_Cons)
  have tail: "(?e = [SPC] \<and> (?u = [] \<or> stop_here ?u)) \<or> (?e = [] \<and> stop_here ?u)"
  proof (cases "?l = []")
    case True
    with rs show ?thesis by simp
  next
    case False
    then have "until_stop ?t < length ?t"
      by (simp add: cl(2))
    from stop_at [OF this, of "SPC # rest"] False show ?thesis
      by (simp add: cl(2))
  qed
  have line: "?line = ws0 @ CHR ''/'' # k @ SPC # ?v @ ?e @ ?u"
    unfolding eu using cl(3) by simp
  have m: "re_match RE_DICT_ITEM (ws0 @ CHR ''/'' # k @ SPC # ?v @ ?e @ ?u) = Some ?z"
    by (rule item_match [OF k' cl(1) s(2) s(3) s(4) ns tail lead])
  then have m': "re_match RE_DICT_ITEM ?line = Some ?z"
    by (simp only: line [symmetric])
  from re_match_end [OF m'] have "drop (m_end ?z) ?line = ?u"
    by simp
  moreover have "group ?z 1 = k" "group ?z 2 = ?v"
    by (simp_all add: group_def)
  ultimately show ?thesis
    using m' by blast
qed

lemma digits_until_stop:
  assumes "set d \<subseteq> set digits"
  shows "until_stop d = length d"
  using assms by (induction d) (auto simp: stop_here_Cons digits_def)

lemma digits_value:
  assumes "d \<noteq> []" and "set d \<subseteq> set digits"
  shows "captured d = d" and "left_over d = []" and "hd d \<notin> set ws_chars"
    and "LF \<notin> set d" and "last d \<notin> set ws_chars"
proof -
  have a: "\<And>c. c \<in> set digits \<Longrightarrow> c \<notin> set ws_chars \<and> c \<noteq> LF"
    by (auto simp: digits_def ws_chars_def)
  from assms obtain c d' where d: "d = c # d'"
    by (cases d) auto
  with assms(2) have "until_stop (tl d) = length (tl d)"
    by (intro digits_until_stop) simp
  then show "captured d = d" and "left_over d = []"
    by (simp_all add: captured_def left_over_def d)
  from assms have "hd d \<in> set digits" "last d \<in> set digits"
    by (auto simp: subset_iff)
  with a show "hd d \<notin> set ws_chars" "last d \<notin> set ws_chars"
    by blast+
  from assms(2) a show "LF \<notin> set d"
    by blast
qed

lemma get_dict_loop_item:
  assumes k: "name_ok k" and v: "value_ok v"
    and rest: "rest = [] \<or> (\<exists>r. rest = CHR ''/'' # r)"
    and lead: "ws0 = [] \<or> ws0 = [SPC]"
  shows "\<exists>e. (e = [] \<or> e = [SPC]) \<and>
           get_dict_loop (ws0 @ CHR ''/'' # k @ SPC # value_text v @ SPC # rest) ret ws =
             get_dict_loop (e @ rest) (AList.update k v ret) ws"
proof -
  let ?s = "value_text v"
  let ?L = "ws0 @ CHR ''/'' # k @ SPC # ?s @ SPC # rest"
  have ne: "?L \<noteq> []"
    by simp
  have en: "re_match RE_DICT_END ?L = None"
    by (rule dict_end_no_match [OF lead])
  show ?thesis
  proof (cases v)
    case (PInt n)
    with v have vt: "?s = str_nat (nat n)" and n: "0 \<le> n"
      by (simp_all add: str_int_def)
    from str_nat_digits [of "nat n"] have dg: "?s \<noteq> []" "set ?s \<subseteq> set digits"
      unfolding vt by simp_all
    note dv = digits_value [OF dg]
    from item_match_value [OF k dg(1) dv(3), of rest ws0] dv(1,2,4,5) rest lead
    obtain z where z: "re_match RE_DICT_ITEM ?L = Some z" "group z 1 = k" "group z 2 = ?s"
      "drop (m_end z) ?L = rest"
      by auto
    have "re_match RE_INT ?s \<noteq> None"
      by (rule RE_INT_digits [OF dg])
    then have i: "re_match RE_INT (group z 2) \<noteq> None"
      by (simp add: z(3))
    have "CHR ''<'' \<notin> set ?s"
      using dg(2) by (auto simp: digits_def)
    then have "?s \<noteq> ''<<''"
      by auto
    then have nd: "group z 2 \<noteq> ''<<''"
      by (simp add: z(3))
    have iv: "int_of_digits (group z 2) = n"
      using n by (simp add: z(3) vt int_of_digits_str_nat)
    have "get_dict_loop ?L ret ws =
            get_dict_loop (drop (m_end z) ?L)
              (AList.update (group z 1) (PInt (int_of_digits (group z 2))) ret) ws"
      by (rule get_dict_loop_int [OF ne en z(1) nd i])
    also have "drop (m_end z) ?L = [] @ rest"
      using z(4) by simp
    also have "group z 1 = k"
      by (rule z(2))
    also have "int_of_digits (group z 2) = n"
      by (rule iv)
    finally have "get_dict_loop ?L ret ws = get_dict_loop ([] @ rest) (AList.update k v ret) ws"
      by (simp only: PInt)
    then show ?thesis
      by blast
  next
    case (PStr s)
    with v have o: "opaque_ok s"
      by simp
    then have b: "s \<noteq> []" "hd s \<notin> set ws_chars" "LF \<notin> set (captured s)"
      "last (captured s) \<notin> set ws_chars"
      by (simp_all add: opaque_ok_def)
    have vs: "?s = s"
      by (simp add: PStr)
    from item_match_value [OF k b rest lead]
    obtain z where z: "re_match RE_DICT_ITEM ?L = Some z" "group z 1 = k" "group z 2 = captured s"
      "drop (m_end z) ?L = (if left_over s = [] then rest else left_over s @ SPC # rest)"
      unfolding vs by blast
    note cl = captured_left_over [OF b(1)]
    show ?thesis
    proof (cases "hd s = CHR ''[''")
      case False
      with o have l: "left_over s = []" and nd: "\<not> list_all (\<lambda>c. c \<in> set digits) s" and nl: "s \<noteq> ''<<''"
        by (simp_all add: opaque_ok_def)
      from l cl(3) have c: "captured s = s"
        by simp
      from nd have "\<not> set s \<subseteq> set digits"
        by (auto simp: list_all_iff)
      moreover from b(3) c have "LF \<notin> set s"
        by simp
      ultimately have "re_match RE_INT s = None"
        by (rule RE_INT_not_digits)
      then have i: "re_match RE_INT (group z 2) = None"
        by (simp add: z(3) c)
      have "\<not> startswith s ''[''"
        using False b(1) by (cases s) (auto simp: startswith_def)
      then have a: "\<not> startswith (group z 2) ''[''"
        by (simp add: z(3) c)
      have n2: "group z 2 \<noteq> ''<<''"
        using nl by (simp add: z(3) c)
      have "get_dict_loop ?L ret ws =
              get_dict_loop (drop (m_end z) ?L)
                (AList.update (group z 1) (PStr (group z 2)) ret) ws"
        by (rule get_dict_loop_str [OF ne en z(1) n2 i a])
      also have "drop (m_end z) ?L = [] @ rest"
        using z(4) l by simp
      also have "group z 1 = k"
        by (rule z(2))
      also have "group z 2 = s"
        by (simp add: z(3) c)
      finally have "get_dict_loop ?L ret ws = get_dict_loop ([] @ rest) (AList.update k v ret) ws"
        by (simp only: PStr)
      then show ?thesis
        by blast
    next
      case True
      with o have cls: "closes (captured s) (left_over s)"
        by (simp add: opaque_ok_def)
      have hc: "hd (captured s) = CHR ''[''"
        using True by (simp add: cl(1))
      have cne: "captured s \<noteq> []"
        by (simp add: cl(1))
      have "CHR ''['' \<in> set (captured s)"
        using hc cne by (metis hd_in_set)
      then have "\<not> set (captured s) \<subseteq> set digits"
        by (auto simp: digits_def)
      then have "re_match RE_INT (captured s) = None"
        using b(3) by (rule RE_INT_not_digits)
      then have i: "re_match RE_INT (group z 2) = None"
        by (simp add: z(3))
      have "startswith (captured s) ''[''"
        using hc cne by (cases "captured s") (auto simp: startswith_def)
      then have a: "startswith (group z 2) ''[''"
        by (simp add: z(3))
      have "captured s \<noteq> ''<<''"
        using hc by auto
      then have n2: "group z 2 \<noteq> ''<<''"
        by (simp add: z(3))
      let ?e = "if left_over s = [] then [] else [SPC]"
      have "drop (m_end z) ?L = left_over s @ ?e @ rest"
        using z(4) by simp
      moreover have "array_loop (captured s) (left_over s @ ?e @ rest) =
          Some (captured s @ left_over s, ?e @ rest)"
        by (rule closes_array_loop [OF cls])
      ultimately have al: "array_loop (group z 2) (drop (m_end z) ?L) = Some (s, ?e @ rest)"
        by (simp add: z(3) cl(3))
      have "get_dict_loop ?L ret ws =
              get_dict_loop (?e @ rest) (AList.update (group z 1) (PStr s) ret) ws"
        by (rule get_dict_loop_arr [OF ne en z(1) n2 i a al])
      also have "group z 1 = k"
        by (rule z(2))
      finally have "get_dict_loop ?L ret ws = get_dict_loop (?e @ rest) (AList.update k v ret) ws"
        by (simp only: PStr)
      moreover have "?e = [] \<or> ?e = [SPC]"
        by simp
      ultimately show ?thesis
        by blast
    qed
  next
    case (PDict d)
    with v show ?thesis by simp
  qed
qed

lemma LazyStar_Nil: "rmatch (LazyStar r) (b, [], g) = [(b, [], g)]"
  by (subst rmatch.simps) simp

lemma item_match_blank:
  assumes k: "name_ok k" and lead: "ws0 = [] \<or> ws0 = [SPC]"
  shows "re_match RE_DICT_ITEM (ws0 @ CHR ''/'' # k @ [SPC, SPC, SPC]) =
           Some (SPC # SPC # SPC # rev k @ CHR ''/'' # rev ws0, [], [(1, k), (2, [SPC])])"
proof -
  let ?H = "Ahead (Alt (Chr CHR ''/'') (Alt (Lit ''>>'') Eos))"
  let ?V = "Grp 2 (Seq AnyNoNL (LazyStar AnyNoNL))"
  let ?K = "Seq (Star WS) ?H"
  let ?R4 = "Seq ?V ?K"
  let ?R3 = "Seq (Star WS) ?R4"
  let ?R2 = "Seq NAME ?R3"
  let ?L1 = "CHR ''/'' # k @ SPC # [SPC, SPC]"
  let ?b2 = "rev k @ CHR ''/'' # rev ws0"
  let ?g = "[(1, k)] :: groups"
  let ?z = "(SPC # SPC # SPC # ?b2, [], [(1, k), (2, [SPC])])"
  from k have k': "set k \<inter> set name_class = {}"
    by (auto simp: name_ok_def list_all_iff)
  have a1: "rmatch (Star WS) (rev ws0, ?L1, []) = [(rev ws0, ?L1, [])]"
    by (rule Star_WS_none) (simp add: ws_chars_def)
  have a: "\<exists>ys. rmatch (Star WS) ([], ws0 @ ?L1, []) = (rev ws0, ?L1, []) # ys"
    using lead
  proof
    assume "ws0 = []"
    with a1 show ?thesis by simp
  next
    assume w: "ws0 = [SPC]"
    have "rmatch (Star WS) ([], SPC # ?L1, []) = rmatch (Star WS) ([SPC], ?L1, []) @ [([], SPC # ?L1, [])]"
      by (rule Star_WS_blank) simp
    with a1 w show ?thesis by simp
  qed
  from NAME_first [OF k', of "rev ws0" "[SPC, SPC]" "[]"] obtain ys2 where
    n: "rmatch NAME (rev ws0, ?L1, []) = (?b2, [SPC, SPC, SPC], ?g) # ys2"
    by auto
  have w0: "\<And>b g. rmatch (Star WS) (b, [], g) = [(b, [], g)]"
    by (rule Star_WS_none) simp
  have w1: "\<And>b s g. rmatch (Star WS) (b, SPC # s, g) = rmatch (Star WS) (SPC # b, s, g) @ [(b, SPC # s, g)]"
    by (rule Star_WS_blank) simp
  have b: "rmatch (Star WS) (?b2, [SPC, SPC, SPC], ?g) =
      [(SPC # SPC # SPC # ?b2, [], ?g)] @ (SPC # SPC # ?b2, [SPC], ?g) #
        [(SPC # ?b2, [SPC, SPC], ?g), (?b2, [SPC, SPC, SPC], ?g)]"
    by (simp add: w0 w1)
  have dead: "\<forall>p \<in> set [(SPC # SPC # SPC # ?b2, [], ?g)]. rmatch ?R4 p = []"
    by simp
  have v: "rmatch ?V (SPC # SPC # ?b2, [SPC], ?g) = [(SPC # SPC # SPC # ?b2, [], [(1, k), (2, [SPC])])]"
    by (simp add: LazyStar_Nil)
  have h: "rmatch ?K (SPC # SPC # SPC # ?b2, [], [(1, k), (2, [SPC])]) = [?z]"
    by (simp add: w0)
  have r4: "rmatch ?R4 (SPC # SPC # ?b2, [SPC], ?g) = ?z # []"
    unfolding rmatch.simps(7) [of ?V ?K] v using h by simp
  from Seq_first [OF b dead r4] obtain ys3 where
    r3: "rmatch ?R3 (?b2, [SPC, SPC, SPC], ?g) = ?z # ys3"
    by blast
  from Seq_first0 [OF n r3] obtain ys2' where
    r2: "rmatch ?R2 (rev ws0, ?L1, []) = ?z # ys2'"
    by blast
  from a obtain ys1 where "rmatch (Star WS) ([], ws0 @ ?L1, []) = (rev ws0, ?L1, []) # ys1"
    by blast
  from Seq_first0 [OF this r2] obtain ys0 where
    "rmatch (Seq (Star WS) ?R2) ([], ws0 @ ?L1, []) = ?z # ys0"
    by blast
  then have "rmatch RE_DICT_ITEM ([], ws0 @ ?L1, []) = ?z # ys0"
    unfolding RE_DICT_ITEM_def .
  then have "re_match RE_DICT_ITEM (ws0 @ ?L1) = Some ?z"
    unfolding re_match_def by (simp only: list.case)
  then show ?thesis
    by simp
qed

lemma get_dict_loop_blank_value:
  assumes k: "name_ok k" and lead: "ws0 = [] \<or> ws0 = [SPC]"
  shows "get_dict_loop (ws0 @ CHR ''/'' # k @ [SPC, SPC, SPC]) ret ws =
           Some (AList.update k (PStr [SPC]) ret, [], ws)"
proof -
  let ?L = "ws0 @ CHR ''/'' # k @ [SPC, SPC, SPC]"
  let ?z = "(SPC # SPC # SPC # rev k @ CHR ''/'' # rev ws0, [], [(1, k), (2, [SPC])])"
  have ne: "?L \<noteq> []"
    by simp
  have en: "re_match RE_DICT_END ?L = None"
    by (rule dict_end_no_match [OF lead])
  have m: "re_match RE_DICT_ITEM ?L = Some ?z"
    by (rule item_match_blank [OF k lead])
  have g: "group ?z 1 = k" "group ?z 2 = [SPC]"
    by (simp_all add: group_def)
  from re_match_end [OF m] have d: "drop (m_end ?z) ?L = []"
    by simp
  have "re_match RE_INT [SPC] = None"
    by (rule RE_INT_not_digits) (simp_all add: digits_def)
  then have i: "re_match RE_INT (group ?z 2) = None"
    by (simp only: g)
  have a: "\<not> startswith (group ?z 2) ''[''"
    unfolding g(2) by (simp add: startswith_def)
  have n2: "group ?z 2 \<noteq> ''<<''"
    unfolding g(2) by simp
  have "get_dict_loop ?L ret ws =
          get_dict_loop (drop (m_end ?z) ?L) (AList.update (group ?z 1) (PStr (group ?z 2)) ret) ws"
    by (rule get_dict_loop_str [OF ne en m n2 i a])
  also have "drop (m_end ?z) ?L = []"
    by (rule d)
  also have "group ?z 1 = k"
    by (rule g)
  also have "group ?z 2 = [SPC]"
    by (rule g)
  finally show ?thesis
    by (simp only: get_dict_loop_empty)
qed

lemma dict_end_blank: "re_match RE_DICT_END [SPC] = None"
  by code_simp

lemma dict_item_blank: "re_match RE_DICT_ITEM [SPC] = None"
  by code_simp

lemma get_dict_loop_only_blank:
  "get_dict_loop [SPC] ret ws = Some (ret, [SPC], ws @ [ExpectedDictItem [SPC]])"
  by (subst get_dict_loop.simps) (simp add: dict_end_blank dict_item_blank)

lemma get_dict_loop_lead:
  assumes "e = [] \<or> e = [SPC]"
  shows "\<exists>l ws'. get_dict_loop e ret ws = Some (ret, l, ws')"
  using assms by (auto simp: get_dict_loop_empty get_dict_loop_only_blank)

lemma get_dict_loop_items:
  assumes "items_ok m" and "ws0 = [] \<or> ws0 = [SPC]"
  shows "\<exists>l ws'. get_dict_loop (ws0 @ concat (map item_text m)) ret ws =
           Some (foldl (\<lambda>r (k, v). AList.update k v r) ret m, l, ws')"
  using assms
proof (induction m arbitrary: ret ws0)
  case Nil
  from get_dict_loop_lead [OF Nil(2)] show ?case
    by simp
next
  case (Cons a m)
  obtain k v where a: "a = (k, v)"
    by (cases a)
  let ?rest = "concat (map item_text m)"
  have t: "ws0 @ concat (map item_text (a # m)) = ws0 @ CHR ''/'' # k @ SPC # value_text v @ SPC # ?rest"
    by (simp add: a item_text_def)
  from Cons.prems(1) have k: "name_ok k"
    by (cases m) (simp_all add: a)
  show ?case
  proof (cases "value_ok v")
    case True
    from Cons.prems(1) have m: "items_ok m"
      by (cases m) (simp_all add: a)
    from get_dict_loop_item [OF k True items_start Cons.prems(2), of m ret ws] obtain e where
      e: "e = [] \<or> e = [SPC]"
      and s: "get_dict_loop (ws0 @ CHR ''/'' # k @ SPC # value_text v @ SPC # ?rest) ret ws =
                get_dict_loop (e @ ?rest) (AList.update k v ret) ws"
      by blast
    from Cons.IH [OF m e, of "AList.update k v ret"] obtain l ws' where
      "get_dict_loop (e @ ?rest) (AList.update k v ret) ws =
         Some (foldl (\<lambda>r (k, v). AList.update k v r) (AList.update k v ret) m, l, ws')"
      by blast
    with s t show ?thesis
      by (simp add: a)
  next
    case False
    with Cons.prems(1) have m: "m = []" and v: "v = PStr [SPC]"
      by (cases m; simp add: a)+
    from get_dict_loop_blank_value [OF k Cons.prems(2), of ret ws] show ?thesis
      by (simp add: a m v item_text_def)
  qed
qed

lemma items_ok_text:
  assumes "items_ok m"
  shows "dict_to_pdf_loop m ret = Inr (ret @ concat (map item_text m))"
  using assms
proof (induction m arbitrary: ret)
  case Nil
  show ?case by simp
next
  case (Cons a m)
  obtain k v where a: "a = (k, v)"
    by (cases a)
  from Cons.prems have m: "items_ok m" and v: "value_ok v \<or> v = PStr [SPC]"
    by (cases m; simp add: a; blast)+
  show ?case
  proof (cases v)
    case (PInt i)
    then show ?thesis
      using Cons.IH [OF m] by (simp add: a item_text_def)
  next
    case (PStr s)
    then show ?thesis
      using Cons.IH [OF m] by (simp add: a item_text_def)
  next
    case (PDict d)
    with v show ?thesis by simp
  qed
qed

section \<open>The handles of the examples\<close>

text \<open>The two handles of the examples are what the loads of their files produce.\<close>

lemma chain_pdf_loads:
  "get_xref_table (handle_on chain_pdf) 64 = Some (Inr True, chain_handle, [])"
  by code_simp

lemma streams_pdf_loads:
  "get_xref_table (handle_on streams_pdf) 223 = Some (Inr True, streams_handle, [])"
  by code_simp

section \<open>Opening a file that is not a PDF\<close>

lemma open_pdf_bad_signature:
  assumes "fs file_name = Some bytes"
    and "re_match RE_PDF_HEAD (take 10 bytes) = None"
  shows "fst (open_pdf fs st file_name) = Inl (NameError ''ifn'')"
  using assms by (simp add: open_pdf_def f_read_def)

lemma open_pdf_never_format_error:
  "fst (open_pdf fs st file_name) \<noteq> Inl (PDFKludgeError msg)"
  by (simp add: open_pdf_def f_read_def split: option.splits)

text \<open>
  C4. On a file whose first bytes are not the signature, \<open>open_pdf\<close> should fail with
  a \<open>PDFKludgeError\<close> saying that the file is not a PDF file. On the text file
  \<open>notes.txt\<close> the code raises \<open>NameError\<close> for the unbound name \<open>ifn\<close> instead, and
  leaves the file open on the handle.
\<close>

theorem open_pdf_not_a_pdf_raises_NameError:
  "open_pdf notes_fs init ''notes.txt'' =
     (Inl (NameError ''ifn''),
      init\<lparr>infile := Some \<lparr>content = ''hello world, this is text'', fpos = 10\<rparr>\<rparr>)"
  by code_simp

section \<open>Locating the first xref table\<close>

lemma get_init_xref_short:
  assumes "infile st = Some fl"
    and "length (content fl) < 1024"
  shows "get_init_xref st = Some (Inl IOError, st, [])"
  using assms by (simp add: get_init_xref_def f_seek_end_def f_seek_def)

text \<open>
  C5. \<open>get_init_xref\<close> should seek to \<open>max(0, end_of_file - 1024)\<close> and succeed on a
  valid PDF shorter than 1024 bytes. The code seeks to \<open>end_of_file - 1024\<close> with no
  lower bound: on \<open>small_pdf\<close> (143 bytes, and its table at offset 41 loads without an
  error) the seek raises \<open>IOError\<close> and nothing is loaded.
\<close>

theorem get_init_xref_short_file_raises_IOError:
  "length small_pdf = 143 \<and>
   map_option fst (get_xref_table (handle_on small_pdf) 41) = Some (Inr True) \<and>
   get_init_xref (handle_on small_pdf) = Some (Inl IOError, handle_on small_pdf, [])"
  by code_simp

section \<open>The array loop of the dictionary parser\<close>

lemma array_loop_diverges:
  assumes "array_loop val line = Some y"
  shows "\<not> (py_count val (CHR '']'') < py_count val (CHR ''['') \<and> py_find line '']'' < 0)"
proof (rule array_loop.raw_induct
    [where P = "\<lambda>v l y. \<not> (py_count v (CHR '']'') < py_count v (CHR ''['') \<and> py_find l '']'' < 0)",
      OF _ assms])
  fix f v l z
  assume ih: "\<And>v l y. f v l = Some y \<Longrightarrow>
      \<not> (py_count v (CHR '']'') < py_count v (CHR ''['') \<and> py_find l '']'' < 0)"
    and step: "(if py_count v (CHR '']'') < py_count v (CHR ''['')
        then f (v @ take (nat (py_find l '']'' + 1)) l) (drop (nat (py_find l '']'' + 1)) l)
        else Some (v, l)) = Some z"
  show "\<not> (py_count v (CHR '']'') < py_count v (CHR ''['') \<and> py_find l '']'' < 0)"
  proof
    assume c: "py_count v (CHR '']'') < py_count v (CHR ''['') \<and> py_find l '']'' < 0"
    then have "nat (py_find l '']'' + 1) = 0"
      by simp
    with step c have "f v l = Some z"
      by simp
    from ih [OF this] c show False
      by simp
  qed
qed

text \<open>
  With more \<open>[\<close> than \<open>]\<close> in the value and no \<open>]\<close> in the remaining text,
  \<open>find\<close> returns -1, the loop appends nothing and its condition stays true: it never
  exits.
\<close>

lemma array_loop_None:
  assumes "py_count val (CHR '']'') < py_count val (CHR ''['')"
    and "py_find line '']'' < 0"
  shows "array_loop val line = None"
  using assms array_loop_diverges [of val line] by (cases "array_loop val line") auto

lemma dict_end_on_open_array: "re_match RE_DICT_END ''/A [1 2'' = None"
  by code_simp

lemma dict_item_on_open_array:
  "re_match RE_DICT_ITEM ''/A [1 2'' = Some (''2 1[ A/'', [], [(1, ''A''), (2, ''[1 2'')])"
  by code_simp

lemma int_on_open_array: "re_match RE_INT ''[1 2'' = None"
  by code_simp

lemma counts_on_open_array:
  "py_count ''[1 2'' (CHR '']'') < py_count ''[1 2'' (CHR ''['') \<and> py_find [] '']'' < 0"
  by code_simp

text \<open>
  C9. \<open>get_dict\<close> should return on every input. On \<open>/A [1 2\<close>, whose array is never
  closed, the array loop of the code does not exit and \<open>get_dict\<close> does not return.
\<close>

theorem get_dict_hangs_on_open_array: "get_dict ''/A [1 2'' = None"
proof -
  have "array_loop ''[1 2'' [] = None"
    using counts_on_open_array by (simp add: array_loop_None)
  then have "get_dict_loop ''/A [1 2'' [] [] = None"
    by (subst get_dict_loop.simps)
       (simp add: dict_end_on_open_array dict_item_on_open_array int_on_open_array
          group_def m_end_def startswith_def)
  then show ?thesis
    by (simp add: get_dict_def)
qed

section \<open>A stream whose \<open>Length\<close> is an indirect reference\<close>

text \<open>
  C7. With a \<open>Length\<close> that is not an integer, \<open>get_stream_obj_at\<close> should fall
  through to the scan for \<open>endstream\<close>. On the object at offset 9 of \<open>streams_pdf\<close>,
  whose dictionary is \<open>/Length 5 0 R\<close>, the parser stores the string \<open>5 0 R\<close> and the
  code adds it to \<open>r.end()\<close>: the call raises \<open>TypeError\<close>.
\<close>

theorem get_stream_obj_at_indirect_Length_raises_TypeError:
  "map_option fst (get_dict ''/Length 5 0 R'') = Some [(''Length'', PStr ''5 0 R'')] \<and>
   map_option fst (get_stream_obj_at streams_handle 9 None False) = Some (Inl TypeError)"
  by code_simp

section \<open>The checks of \<open>get_stream_obj_at\<close>\<close>

lemma stream_data_error:
  "fst (stream_data dat r mt ob from_pt) = Inl e \<Longrightarrow> e = TypeError"
  by (auto simp: stream_data_def split: if_splits option.splits pval.splits)

lemma parse_object_error:
  assumes "parse_object st from_pt head_only dat = Some (Inl e, ws)"
  shows "e = TypeError \<or> e = KeyError"
proof -
  have "\<And>d r mt ob x ws'. stream_data d r mt ob from_pt = (Inl x, ws') \<Longrightarrow> x = TypeError"
    using stream_data_error by (metis fst_conv)
  with assms show ?thesis
    by (auto simp: parse_object_def split: option.splits if_splits prod.splits sum.splits)
qed

lemma get_stream_obj_at_passed:
  assumes "resolve_to_pt st from_pt to_pt = Inr tp"
    and "get_stream_obj_at st from_pt to_pt head_only = Some (Inl e, st', ws)"
  shows "\<not> is_format_error e"
proof -
  have a: "e = AttributeError \<or> e = IOError \<or> e = TypeError \<or> e = KeyError"
    using assms parse_object_error
    by (auto simp: get_stream_obj_at_def f_seek_def split: option.splits if_splits prod.splits sum.splits)
  then show ?thesis
    by (auto simp: is_format_error_def)
qed

text \<open>
  C8. \<open>get_stream_obj_at\<close> raises the lookup error exactly when \<open>from_pt\<close> is not a
  key of \<open>seekr\<close>, whatever \<open>to_pt\<close> is (the membership check comes first); with
  \<open>from_pt\<close> a key and \<open>to_pt\<close> given, it raises the range error exactly when
  \<open>to_pt <= from_pt\<close>. Both leave the handle and its file as they were, and the call
  raises no other \<open>PDFKludgeError\<close>.
\<close>

theorem get_stream_obj_at_preconditions:
  "(\<not> has_key (seekr st) from_pt \<longrightarrow>
      get_stream_obj_at st from_pt to_pt head_only =
        Some (Inl (PDFKludgeError (InvalidSeekPoint from_pt)), st, [])) \<and>
   (has_key (seekr st) from_pt \<longrightarrow>
      (\<forall>e. raised (get_stream_obj_at st from_pt to_pt head_only) = Some e \<longrightarrow> \<not> is_lookup_error e)) \<and>
   (has_key (seekr st) from_pt \<and> to_pt = Some t \<and> t \<le> from_pt \<longrightarrow>
      get_stream_obj_at st from_pt to_pt head_only =
        Some (Inl (PDFKludgeError (InvalidRange from_pt t)), st, [])) \<and>
   (has_key (seekr st) from_pt \<and> (to_pt = None \<or> (\<exists>t. to_pt = Some t \<and> from_pt < t)) \<longrightarrow>
      (\<forall>e. raised (get_stream_obj_at st from_pt to_pt head_only) = Some e \<longrightarrow> \<not> is_format_error e))"
proof (intro conjI impI allI)
  assume "\<not> has_key (seekr st) from_pt"
  then show "get_stream_obj_at st from_pt to_pt head_only =
        Some (Inl (PDFKludgeError (InvalidSeekPoint from_pt)), st, [])"
    by (simp add: get_stream_obj_at_def resolve_to_pt_def)
next
  fix e
  assume k: "has_key (seekr st) from_pt"
    and r: "raised (get_stream_obj_at st from_pt to_pt head_only) = Some e"
  from r obtain st' ws where g: "get_stream_obj_at st from_pt to_pt head_only = Some (Inl e, st', ws)"
    by (auto simp: raised_def split: option.splits sum.splits prod.splits)
  show "\<not> is_lookup_error e"
  proof (cases "resolve_to_pt st from_pt to_pt")
    case (Inl x)
    with k obtain t where "x = PDFKludgeError (InvalidRange from_pt t)"
      by (auto simp: resolve_to_pt_def split: option.splits if_splits)
    with Inl g show ?thesis
      by (auto simp: get_stream_obj_at_def is_lookup_error_def)
  next
    case (Inr tp)
    from get_stream_obj_at_passed [OF Inr g] show ?thesis
      by (auto simp: is_format_error_def is_lookup_error_def split: error.splits pdf_msg.splits)
  qed
next
  assume "has_key (seekr st) from_pt \<and> to_pt = Some t \<and> t \<le> from_pt"
  then show "get_stream_obj_at st from_pt to_pt head_only =
        Some (Inl (PDFKludgeError (InvalidRange from_pt t)), st, [])"
    by (simp add: get_stream_obj_at_def resolve_to_pt_def)
next
  fix e
  assume k: "has_key (seekr st) from_pt \<and> (to_pt = None \<or> (\<exists>t. to_pt = Some t \<and> from_pt < t))"
    and r: "raised (get_stream_obj_at st from_pt to_pt head_only) = Some e"
  from r obtain st' ws where g: "get_stream_obj_at st from_pt to_pt head_only = Some (Inl e, st', ws)"
    by (auto simp: raised_def split: option.splits sum.splits prod.splits)
  from k have "\<exists>tp. resolve_to_pt st from_pt to_pt = Inr tp"
    by (auto simp: resolve_to_pt_def)
  then obtain tp where "resolve_to_pt st from_pt to_pt = Inr tp" ..
  from get_stream_obj_at_passed [OF this g] show "\<not> is_format_error e" .
qed


theorem get_stream_obj_at_preconditions_witness:
  "\<not> has_key (seekr streams_handle) 8 \<and>
   get_stream_obj_at streams_handle 8 (Some 3) False =
     Some (Inl (PDFKludgeError (InvalidSeekPoint 8)), streams_handle, []) \<and>
   has_key (seekr streams_handle) 9 \<and>
   get_stream_obj_at streams_handle 9 (Some 9) True =
     Some (Inl (PDFKludgeError (InvalidRange 9 9)), streams_handle, []) \<and>
   raised (get_stream_obj_at streams_handle 114 (Some 144) False) = None"
proof -
  have a: "\<not> has_key (seekr streams_handle) 8"
    by code_simp
  have b: "has_key (seekr streams_handle) 9"
    by code_simp
  have c: "raised (get_stream_obj_at streams_handle 114 (Some 144) False) = None"
    by code_simp
  from a get_stream_obj_at_preconditions [of streams_handle 8 "Some 3" False 3]
  have d: "get_stream_obj_at streams_handle 8 (Some 3) False =
     Some (Inl (PDFKludgeError (InvalidSeekPoint 8)), streams_handle, [])"
    by blast
  from b get_stream_obj_at_preconditions [of streams_handle 9 "Some 9" True 9]
  have e: "get_stream_obj_at streams_handle 9 (Some 9) True =
     Some (Inl (PDFKludgeError (InvalidRange 9 9)), streams_handle, [])"
    by simp
  from a b c d e show ?thesis
    by blast
qed

section \<open>The trailer that a chained load stores\<close>

lemma delete_no_key: "\<not> has_key tr k \<Longrightarrow> AList.delete k tr = tr"
  by (induction tr) (auto simp: has_key_def)

lemma delete_has_key [simp]: "\<not> has_key (AList.delete k tr) k"
  by (simp add: has_key_def delete_conv')

text \<open>
  C1, as the code has it. After a successful \<open>get_xref_table(seek_to)\<close> the trailer
  stored on the handle is the trailer of the table at \<open>seek_to\<close>, the table the load
  started from (the newest of its chain), with its \<open>Prev\<close> key removed: line 194
  runs after the recursive call on \<open>Prev\<close> has returned, so its write is the last
  one and replaces the trailers that the older tables stored.
\<close>

theorem get_xref_table_stores_first_trailer:
  assumes "get_xref_table st seek_to = Some (Inr b, st', ws)"
  shows "\<exists>tr. table_trailer st seek_to = Some tr \<and>
           trailer st' = AList.delete ''Prev'' tr \<and> \<not> has_key (trailer st') ''Prev''"
proof -
  from assms obtain res st1 ws1 where
    sec: "xref_section st seek_to = Some (res, st1, ws1)"
    by (subst (asm) get_xref_table.simps) (auto split: Option.bind_splits)
  show ?thesis
  proof (cases res)
    case (Inl e)
    with assms sec show ?thesis
      by (subst (asm) get_xref_table.simps) simp
  next
    case (Inr tr)
    have tt: "table_trailer st seek_to = Some tr"
      using sec Inr by (simp add: table_trailer_def)
    have "trailer st' = AList.delete ''Prev'' tr"
    proof (cases "has_key tr ''Prev''")
      case True
      with assms sec Inr show ?thesis
        by (subst (asm) get_xref_table.simps)
           (auto split: Option.bind_splits option.splits pval.splits sum.splits)
    next
      case False
      with assms sec Inr show ?thesis
        by (subst (asm) get_xref_table.simps) (auto simp: delete_no_key)
    qed
    with tt show ?thesis
      by simp
  qed
qed


theorem get_xref_table_stores_first_trailer_witness:
  "get_xref_table (handle_on chain_pdf) 64 = Some (Inr True, chain_handle, []) \<and>
   (\<exists>tr. table_trailer (handle_on chain_pdf) 64 = Some tr \<and>
      trailer chain_handle = AList.delete ''Prev'' tr \<and>
      \<not> has_key (trailer chain_handle) ''Prev'')"
  using chain_pdf_loads get_xref_table_stores_first_trailer [OF chain_pdf_loads] by simp

text \<open>
  C1, as the claim states it, fails on \<open>chain_pdf\<close>: the load from the newer table at
  offset 64 succeeds and stores \<open>/Root 2 0 R\<close>, the trailer of that table, and not
  \<open>/Root 1 0 R\<close>, the trailer of the older table at offset 9 that was processed last.
\<close>

theorem oldest_trailer_counterexample:
  "map_option (\<lambda>(res, st, ws). (res, trailer st)) (get_xref_table (handle_on chain_pdf) 64) =
     Some (Inr True, [(''Root'', PStr ''2 0 R'')]) \<and>
   table_trailer (handle_on chain_pdf) 64 = Some [(''Root'', PStr ''2 0 R''), (''Prev'', PInt 9)] \<and>
   table_trailer (handle_on chain_pdf) 9 = Some [(''Root'', PStr ''1 0 R'')]"
  by code_simp

section \<open>A \<open>Length\<close> larger than the bytes that were read\<close>

text \<open>
  C10. In a full extraction (\<open>head_only\<close> false) that reads the buffer \<open>dat\<close>, matches
  the head of the object as \<open>r\<close> and parses its dictionary as \<open>mt\<close>: when \<open>mt\<close> has the
  integer \<open>Length\<close> \<open>l\<close> and fewer than \<open>l\<close> bytes follow the head in \<open>dat\<close>, the call
  returns all the bytes that follow the head as \<open>data\<close>. It raises no error and the slice
  logs no warning: the call logs what the dictionary parser logged for the dictionary text,
  \<open>ws\<close>, and nothing else.
\<close>

theorem get_stream_obj_at_short_Length:
  assumes "resolve_to_pt st from_pt to_pt = Inr tp"
    and "infile st = Some fl"
    and "f_seek from_pt fl = Inr fl1"
    and "read_object from_pt tp False fl1 = (dat, fl2)"
    and "re_match obj_stream_match dat = Some r"
    and "map_of (seekr st) from_pt = Some e"
    and "int_of_digits (group r 2) = obj e"
    and "get_dict (group r 4) = Some (mt, ws)"
    and "map_of mt ''Length'' = Some (PInt l)"
    and "int (length dat) - int (m_end r) < l"
  shows "get_stream_obj_at st from_pt to_pt False =
           Some (Inr (Some \<lparr>meta = mt, data = Some (drop (m_end r) dat)\<rparr>),
                 st\<lparr>infile := Some fl2\<rparr>, ws)"
proof -
  from re_match_end [OF assms(5)] have "m_end r \<le> length dat"
    by simp
  from py_slice_short [OF this assms(10)]
  have "stream_data dat r mt (obj e) from_pt = (Inr (drop (m_end r) dat), [])"
    using assms(9) by (simp add: stream_data_def has_key_def)
  with assms(5-8)
  have "parse_object st from_pt False dat =
          Some (Inr (Some \<lparr>meta = mt, data = Some (drop (m_end r) dat)\<rparr>), ws)"
    by (simp add: parse_object_def)
  with assms(1-4) show ?thesis
    by (simp add: get_stream_obj_at_def)
qed


theorem get_stream_obj_at_short_Length_witness:
  "get_stream_obj_at streams_handle 114 (Some 144) False =
     Some (Inr (Some \<lparr>meta = [(''Length'', PInt 9)], data = Some ''AB''\<rparr>),
           streams_handle\<lparr>infile := Some \<lparr>content = streams_pdf, fpos = 143\<rparr>\<rparr>, [])"
proof -
  let ?fl = "\<lparr>content = streams_pdf, fpos = 354\<rparr>"
  let ?fl1 = "\<lparr>content = streams_pdf, fpos = 114\<rparr>"
  let ?dat = "fst (read_object 114 (Some 144) False ?fl1)"
  let ?fl2 = "snd (read_object 114 (Some 144) False ?fl1)"
  let ?r = "the (re_match obj_stream_match ?dat)"
  have h1: "resolve_to_pt streams_handle 114 (Some 144) = Inr (Some 144)"
    by code_simp
  have h2: "infile streams_handle = Some ?fl"
    by (simp add: streams_handle_def)
  have h3: "f_seek 114 ?fl = Inr ?fl1"
    by (simp add: f_seek_def)
  have h4: "read_object 114 (Some 144) False ?fl1 = (?dat, ?fl2)"
    by simp
  have h5: "re_match obj_stream_match ?dat = Some ?r"
    by code_simp
  have h6: "map_of (seekr streams_handle) 114 = Some (SeekrEntry 3)"
    by code_simp
  have h7: "int_of_digits (group ?r 2) = obj (SeekrEntry 3)"
    by code_simp
  have h8: "get_dict (group ?r 4) = Some ([(''Length'', PInt 9)], [])"
    by code_simp
  have h9: "map_of [(''Length'', PInt 9)] ''Length'' = Some (PInt 9)"
    by simp
  have h10: "int (length ?dat) - int (m_end ?r) < 9"
    by code_simp
  have d: "drop (m_end ?r) ?dat = ''AB''"
    by code_simp
  have f: "?fl2 = \<lparr>content = streams_pdf, fpos = 143\<rparr>"
    by code_simp
  from get_stream_obj_at_short_Length [OF h1 h2 h3 h4 h5 h6 h7 h8 h9 h10] d f
  show ?thesis
    by simp
qed

section \<open>The scan for the end of a stream\<close>

text \<open>
  In a full extraction whose dictionary has no \<open>Length\<close> key and whose buffer \<open>dat\<close> holds
  a terminator, the data returned is group 1 of the scan pattern matched against the whole
  buffer: a prefix \<open>d\<close> of \<open>dat\<close> that a terminator follows. The prefix starts where the
  buffer starts, at the head of the object, and the scan logs nothing.
\<close>

lemma endstream_scan_returns_buffer_prefix:
  assumes "resolve_to_pt st from_pt to_pt = Inr tp"
    and "infile st = Some fl"
    and "f_seek from_pt fl = Inr fl1"
    and "read_object from_pt tp False fl1 = (dat, fl2)"
    and "re_match obj_stream_match dat = Some r"
    and "map_of (seekr st) from_pt = Some e"
    and "int_of_digits (group r 2) = obj e"
    and "get_dict (group r 4) = Some (mt, ws)"
    and "\<not> has_key mt ''Length''"
    and "dat = pre @ t @ post"
    and "is_terminator t"
  shows "\<exists>d t' post'.
           get_stream_obj_at st from_pt to_pt False =
             Some (Inr (Some \<lparr>meta = mt, data = Some d\<rparr>), st\<lparr>infile := Some fl2\<rparr>, ws) \<and>
           dat = d @ t' @ post' \<and> is_terminator t'"
proof -
  from endstream_match [OF assms(10,11)] obtain k t' post' where
    k: "re_match RE_ENDSTREAM dat = Some k" "dat = group k 1 @ t' @ post'" "is_terminator t'"
    by blast
  from k(1) assms(9)
  have "stream_data dat r mt (obj e) from_pt = (Inr (group k 1), [])"
    by (simp add: stream_data_def)
  with assms(5-8)
  have "parse_object st from_pt False dat =
          Some (Inr (Some \<lparr>meta = mt, data = Some (group k 1)\<rparr>), ws)"
    by (simp add: parse_object_def)
  with assms(1-4) have "get_stream_obj_at st from_pt to_pt False =
      Some (Inr (Some \<lparr>meta = mt, data = Some (group k 1)\<rparr>), st\<lparr>infile := Some fl2\<rparr>, ws)"
    by (simp add: get_stream_obj_at_def)
  with k(2,3) show ?thesis
    by blast
qed

text \<open>
  C3. With no \<open>Length\<close> key and a terminator in the buffer the data should be the payload
  between the head of the object and the terminator. On the object at offset 163 of
  \<open>streams_pdf\<close>, read up to offset 207, the buffer is the head \<open>4 0 obj<</A 1>>stream\<close>
  and a newline, the payload \<open>XYZ\<close> and a newline, and the terminator; the dictionary
  \<open>/A 1\<close> has no \<open>Length\<close>. The data returned is the head followed by the payload, not the
  payload, and no warning is logged.
\<close>

theorem get_stream_obj_at_endstream_scan_returns_head:
  "take 43 (drop 163 streams_pdf) =
     (''4 0 obj<</A 1>>stream'' @ [LF]) @ (''XYZ'' @ [LF]) @ (''endstream'' @ [LF] @ ''endobj'' @ [LF]) \<and>
   map_option group0 (re_match obj_stream_match (take 43 (drop 163 streams_pdf))) =
     Some (''4 0 obj<</A 1>>stream'' @ [LF]) \<and>
   map_option (\<lambda>(res, st, ws). (res, ws)) (get_stream_obj_at streams_handle 163 (Some 207) False) =
     Some (Inr (Some \<lparr>meta = [(''A'', PInt 1)],
                      data = Some (''4 0 obj<</A 1>>stream'' @ [LF] @ ''XYZ'' @ [LF])\<rparr>), [])"
  by code_simp

section \<open>The index that a chained load builds\<close>

lemma store_all_Nil [simp]: "store_all [] st = st"
  by (simp add: store_all_def)

lemma store_all_Cons [simp]:
  "store_all ((n, e) # es) st = store_all es (store_entry n (seek e) (gen e) (use e) st)"
  by (simp add: store_all_def)

lemma store_all_append [simp]: "store_all (es @ es') st = store_all es' (store_all es st)"
  by (simp add: store_all_def)

lemma xref_loop_store_all:
  "snd (snd (xref_loop k obj_n fl st)) = store_all (listed_entries k obj_n fl) st"
proof (induction k arbitrary: obj_n fl st)
  case 0
  show ?case by simp
next
  case (Suc k)
  show ?case
  proof (cases "re_match RE_XREF_ENTRY (fst (f_readline fl))")
    case None
    then show ?thesis by simp
  next
    case (Some r)
    then show ?thesis
      using Suc.IH by simp
  qed
qed


lemma store_entry_fields:
  "xref (store_entry n g gn us st) =
     (if g \<noteq> 0 \<and> \<not> has_key (xref st) n
      then AList.update n \<lparr>seek = g, gen = gn, use = us\<rparr> (xref st) else xref st)"
  "seekr (store_entry n g gn us st) =
     (if g \<noteq> 0 \<and> \<not> has_key (xref st) n
      then AList.update g (SeekrEntry n) (seekr st) else seekr st)"
  "infile (store_entry n g gn us st) = infile st"
  "trailer (store_entry n g gn us st) = trailer st"
  by (simp_all add: store_entry_def)

lemma store_all_cong:
  assumes "xref st1 = xref st2" and "seekr st1 = seekr st2"
  shows "xref (store_all es st1) = xref (store_all es st2) \<and>
         seekr (store_all es st1) = seekr (store_all es st2)"
  using assms
proof (induction es arbitrary: st1 st2)
  case Nil
  then show ?case by simp
next
  case (Cons a es)
  obtain n e where a: "a = (n, e)"
    by (cases a)
  have "xref (store_entry n (seek e) (gen e) (use e) st1) =
        xref (store_entry n (seek e) (gen e) (use e) st2)"
    and "seekr (store_entry n (seek e) (gen e) (use e) st1) =
         seekr (store_entry n (seek e) (gen e) (use e) st2)"
    using Cons.prems by (simp_all add: store_entry_fields)
  from Cons.IH [OF this] show ?case
    by (simp add: a)
qed

lemma store_all_first_seen:
  "map_of (xref (store_all es st)) n =
     (case map_of (xref st) n of Some e \<Rightarrow> Some e | None \<Rightarrow> first_seen es n)"
proof (induction es arbitrary: st)
  case Nil
  show ?case by (simp add: first_seen_def split: option.splits)
next
  case (Cons a es)
  obtain m e where a: "a = (m, e)"
    by (cases a)
  have fs: "first_seen ((m, e) # es) n = (if m = n \<and> seek e \<noteq> 0 then Some e else first_seen es n)"
    by (simp add: first_seen_def)
  show ?case
    unfolding a store_all_Cons Cons.IH fs
    by (auto simp: store_entry_fields has_key_def update_conv' split: option.splits)
qed

lemma xref_section_store_all:
  assumes "xref_section st seek_to = Some (res, st1, ws1)"
  shows "xref st1 = xref (store_all (table_entries st seek_to) st) \<and>
         seekr st1 = seekr (store_all (table_entries st seek_to) st)"
proof (cases "infile st")
  case None
  with assms show ?thesis
    by (auto simp: xref_section_def table_entries_def)
next
  case (Some fl0)
  show ?thesis
  proof (cases "f_seek seek_to fl0")
    case (Inl e)
    with assms Some show ?thesis
      by (auto simp: xref_section_def table_entries_def)
  next
    case (Inr fl1)
    show ?thesis
    proof (cases "rstrip (fst (f_readline fl1)) \<noteq> ''xref''")
      case True
      with assms Some Inr show ?thesis
        by (auto simp: xref_section_def table_entries_def)
    next
      case False
      let ?fl2 = "snd (f_readline (snd (f_readline fl1)))"
      show ?thesis
      proof (cases "re_match RE_XREF_HEAD (fst (f_readline (snd (f_readline fl1))))")
        case None
        with assms Some Inr False show ?thesis
          by (auto simp: xref_section_def table_entries_def split: prod.splits)
      next
        case (Some r)
        let ?k = "nat (int_of_digits (group r 2))"
        let ?n = "int_of_digits (group r 1)"
        have te: "table_entries st seek_to = listed_entries ?k ?n ?fl2"
          using \<open>infile st = Some fl0\<close> Inr False Some by (simp add: table_entries_def)
        obtain r3 fl3 st3 where l: "xref_loop ?k ?n ?fl2 st = (r3, fl3, st3)"
          by (cases "xref_loop ?k ?n ?fl2 st") auto
        from xref_loop_store_all [of ?k ?n ?fl2 st] l have st3: "st3 = store_all (table_entries st seek_to) st"
          by (simp add: te)
        from assms \<open>infile st = Some fl0\<close> Inr False Some l
        have "xref st1 = xref st3 \<and> seekr st1 = seekr st3"
          by (auto simp: xref_section_def split: prod.splits sum.splits option.splits)
        with st3 show ?thesis
          by simp
      qed
    qed
  qed
qed


lemma get_xref_table_store_all:
  assumes "get_xref_table st seek_to = Some y"
  shows "\<exists>es. chain_entries st seek_to = Some es \<and>
           xref (fst (snd y)) = xref (store_all es st) \<and>
           seekr (fst (snd y)) = seekr (store_all es st)"
proof (rule get_xref_table.raw_induct
    [where P = "\<lambda>st seek_to y. \<exists>es. chain_entries st seek_to = Some es \<and>
           xref (fst (snd y)) = xref (store_all es st) \<and>
           seekr (fst (snd y)) = seekr (store_all es st)", OF _ assms])
  fix f st seek_to y
  assume ih: "\<And>st seek_to y. f st seek_to = Some y \<Longrightarrow>
      \<exists>es. chain_entries st seek_to = Some es \<and>
           xref (fst (snd y)) = xref (store_all es st) \<and>
           seekr (fst (snd y)) = seekr (store_all es st)"
    and step: "Option.bind (xref_section st seek_to) (\<lambda>(res, st1, ws1).
       case res of
         Inl e \<Rightarrow> Some (Inl e, st1, ws1)
       | Inr tr \<Rightarrow>
           if has_key tr ''Prev'' then
             (case map_of tr ''Prev'' of
                Some (PInt p) \<Rightarrow>
                  Option.bind (f st1 p) (\<lambda>(res2, st2, ws2).
                    case res2 of
                      Inl e \<Rightarrow> Some (Inl e, st2, ws1 @ ws2)
                    | Inr b \<Rightarrow>
                        Some (Inr True, st2\<lparr>trailer := AList.delete ''Prev'' tr\<rparr>, ws1 @ ws2))
              | _ \<Rightarrow> Some (Inl TypeError, st1, ws1))
           else Some (Inr True, st1\<lparr>trailer := tr\<rparr>, ws1)) = Some y"
  let ?te = "table_entries st seek_to"
  from step obtain res st1 ws1 where sec: "xref_section st seek_to = Some (res, st1, ws1)"
    by (auto split: Option.bind_splits)
  from xref_section_store_all [OF sec]
  have s1: "xref st1 = xref (store_all ?te st)" "seekr st1 = seekr (store_all ?te st)"
    by simp_all
  have stop: "chain_entries st seek_to = Some ?te \<and>
      xref (fst (snd y)) = xref (store_all ?te st) \<and> seekr (fst (snd y)) = seekr (store_all ?te st)"
    if ce: "chain_entries st seek_to = Some ?te" and y: "xref (fst (snd y)) = xref st1"
      "seekr (fst (snd y)) = seekr st1"
    using that s1 by simp
  show "\<exists>es. chain_entries st seek_to = Some es \<and>
           xref (fst (snd y)) = xref (store_all es st) \<and>
           seekr (fst (snd y)) = seekr (store_all es st)"
  proof (cases res)
    case (Inl e)
    have "chain_entries st seek_to = Some ?te"
      by (subst chain_entries.simps) (simp add: sec Inl)
    moreover from step sec Inl have "y = (Inl e, st1, ws1)"
      by simp
    ultimately show ?thesis
      using stop by auto
  next
    case (Inr tr)
    show ?thesis
    proof (cases "map_of tr ''Prev''")
      case None
      have "chain_entries st seek_to = Some ?te"
        by (subst chain_entries.simps) (simp add: sec Inr None)
      moreover from step sec Inr None have "y = (Inr True, st1\<lparr>trailer := tr\<rparr>, ws1)"
        by (simp add: has_key_def)
      ultimately show ?thesis
        using stop by auto
    next
      case (Some v)
      show ?thesis
      proof (cases v)
        case (PInt p)
        from step sec Inr Some PInt obtain res2 st2 ws2 where
          rec: "f st1 p = Some (res2, st2, ws2)"
          and y: "xref (fst (snd y)) = xref st2" "seekr (fst (snd y)) = seekr st2"
          by (auto simp: has_key_def split: Option.bind_splits sum.splits)
        from ih [OF rec] obtain es where es: "chain_entries st1 p = Some es"
          "xref st2 = xref (store_all es st1)" "seekr st2 = seekr (store_all es st1)"
          by auto
        have "chain_entries st seek_to = Some (?te @ es)"
          by (subst chain_entries.simps) (simp add: sec Inr Some PInt es(1))
        moreover from store_all_cong [OF s1, of es]
        have "xref (store_all es st1) = xref (store_all (?te @ es) st)"
          "seekr (store_all es st1) = seekr (store_all (?te @ es) st)"
          by simp_all
        ultimately show ?thesis
          using y es(2,3) by auto
      next
        case (PStr x)
        have "chain_entries st seek_to = Some ?te"
          by (subst chain_entries.simps) (simp add: sec Inr Some PStr)
        moreover from step sec Inr Some PStr have "y = (Inl TypeError, st1, ws1)"
          by (simp add: has_key_def)
        ultimately show ?thesis
          using stop by auto
      next
        case (PDict x)
        have "chain_entries st seek_to = Some ?te"
          by (subst chain_entries.simps) (simp add: sec Inr Some PDict)
        moreover from step sec Inr Some PDict have "y = (Inl TypeError, st1, ws1)"
          by (simp add: has_key_def)
        ultimately show ?thesis
          using stop by auto
      qed
    qed
  qed
qed

text \<open>
  C6. A call of \<open>get_xref_table\<close> that returns (with \<open>True\<close> or with an exception)
  leaves the two indexes as storing the entries of the chain, in the order the tables
  are processed, leaves them: an object number that had an entry keeps it, and any other
  one gets the first entry of the chain that lists it with an offset that is not zero.
  Storing one entry changes \<open>xref\<close>, and \<open>seekr\<close> with it, exactly when the offset is
  not zero and the object number has no entry yet.
\<close>

theorem chained_load_first_seen_wins:
  assumes "get_xref_table st seek_to = Some (res, st', ws)"
  shows "\<exists>es. chain_entries st seek_to = Some es \<and>
           xref st' = xref (store_all es st) \<and>
           seekr st' = seekr (store_all es st) \<and>
           (\<forall>n. map_of (xref st') n =
                  (case map_of (xref st) n of Some e \<Rightarrow> Some e | None \<Rightarrow> first_seen es n)) \<and>
           (\<forall>n g gn us s.
              xref (store_entry n g gn us s) =
                (if g \<noteq> 0 \<and> \<not> has_key (xref s) n
                 then AList.update n \<lparr>seek = g, gen = gn, use = us\<rparr> (xref s) else xref s) \<and>
              seekr (store_entry n g gn us s) =
                (if g \<noteq> 0 \<and> \<not> has_key (xref s) n
                 then AList.update g (SeekrEntry n) (seekr s) else seekr s))"
proof -
  from get_xref_table_store_all [OF assms] obtain es where
    es: "chain_entries st seek_to = Some es" "xref st' = xref (store_all es st)"
      "seekr st' = seekr (store_all es st)"
    by auto
  have "\<forall>n. map_of (xref st') n =
      (case map_of (xref st) n of Some e \<Rightarrow> Some e | None \<Rightarrow> first_seen es n)"
    by (simp add: es(2) store_all_first_seen)
  with es show ?thesis
    by (simp add: store_entry_fields)
qed

theorem chained_load_first_seen_wins_witness:
  "get_xref_table (handle_on chain_pdf) 64 = Some (Inr True, chain_handle, []) \<and>
   chain_entries (handle_on chain_pdf) 64 =
     Some [(5, \<lparr>seek = 100, gen = 0, use = True\<rparr>), (5, \<lparr>seek = 50, gen = 0, use = True\<rparr>)] \<and>
   map_of (xref chain_handle) 5 = Some \<lparr>seek = 100, gen = 0, use = True\<rparr> \<and>
   map_of (seekr chain_handle) 100 = Some (SeekrEntry 5) \<and>
   map_of (seekr chain_handle) 50 = None"
proof -
  let ?es = "[(5, \<lparr>seek = 100, gen = 0, use = True\<rparr>), (5, \<lparr>seek = 50, gen = 0, use = True\<rparr>)]"
  have ce: "chain_entries (handle_on chain_pdf) 64 = Some ?es"
    by code_simp
  from chained_load_first_seen_wins [OF chain_pdf_loads] ce
  have "map_of (xref chain_handle) 5 =
      (case map_of (xref (handle_on chain_pdf)) 5 of Some e \<Rightarrow> Some e | None \<Rightarrow> first_seen ?es 5)"
    and sk: "seekr chain_handle = seekr (store_all ?es (handle_on chain_pdf))"
    by auto
  moreover have "(case map_of (xref (handle_on chain_pdf)) 5 of Some e \<Rightarrow> Some e
      | None \<Rightarrow> first_seen ?es 5) = Some \<lparr>seek = 100, gen = 0, use = True\<rparr>"
    by code_simp
  moreover have "map_of (seekr (store_all ?es (handle_on chain_pdf))) 100 = Some (SeekrEntry 5)"
    "map_of (seekr (store_all ?es (handle_on chain_pdf))) 50 = None"
    by code_simp+
  ultimately show ?thesis
    using chain_pdf_loads ce by simp
qed

section \<open>Parsing what the serializer wrote\<close>

text \<open>
  C2. For every flat ordered mapping whose keys are names and whose values are integers that
  are not negative or opaque strings that the parser reads back as they were written,
  \<open>dict_to_pdf\<close> returns \<open><<\<close>, an inner text and \<open>>>\<close>, and \<open>get_dict\<close> applied to the
  inner text, which is the input its documentation asks for, yields the same keys in the same
  insertion order with equal values.
\<close>

theorem get_dict_inverts_dict_to_pdf_inner:
  assumes "flat_ok m"
  shows "\<exists>inner. dict_to_pdf m = Inr (''<<'' @ inner @ ''>>'') \<and>
           map_option fst (get_dict inner) = Some m"
proof -
  let ?inner = "[SPC] @ concat (map item_text m)"
  from assms have ok: "items_ok m" and dist: "distinct (map fst ([] @ m))"
    by (simp_all add: flat_ok_def)
  have "dict_to_pdf m = Inr (''<<'' @ ?inner @ ''>>'')"
    by (simp add: dict_to_pdf_def items_ok_text [OF ok])
  moreover from get_dict_loop_items [OF ok, of "[SPC]" "[]" "[]"] obtain l ws' where
    "get_dict_loop ?inner [] [] = Some (foldl (\<lambda>r (k, v). AList.update k v r) [] m, l, ws')"
    by blast
  then have "map_option fst (get_dict ?inner) = Some m"
    using foldl_update_distinct [OF dist] by (simp add: get_dict_def)
  ultimately show ?thesis
    by blast
qed

text \<open>
  The property at a mapping of five items: a name, a reference, an integer, an array of
  numbers and an array of names.
\<close>

theorem get_dict_inverts_dict_to_pdf_inner_witness:
  "flat_ok [(''Type'', PStr ''/Catalog''), (''Pages'', PStr ''3 0 R''), (''Size'', PInt 6),
            (''MediaBox'', PStr ''[0 0 612 792]''), (''ProcSet'', PStr ''[/PDF /Text]'')] \<and>
   dict_to_pdf [(''Type'', PStr ''/Catalog''), (''Pages'', PStr ''3 0 R''), (''Size'', PInt 6),
                (''MediaBox'', PStr ''[0 0 612 792]''), (''ProcSet'', PStr ''[/PDF /Text]'')] =
     Inr ''<< /Type /Catalog /Pages 3 0 R /Size 6 /MediaBox [0 0 612 792] /ProcSet [/PDF /Text] >>'' \<and>
   map_option fst
     (get_dict '' /Type /Catalog /Pages 3 0 R /Size 6 /MediaBox [0 0 612 792] /ProcSet [/PDF /Text] '') =
     Some [(''Type'', PStr ''/Catalog''), (''Pages'', PStr ''3 0 R''), (''Size'', PInt 6),
           (''MediaBox'', PStr ''[0 0 612 792]''), (''ProcSet'', PStr ''[/PDF /Text]'')]"
proof -
  let ?m = "[(''Type'', PStr ''/Catalog''), (''Pages'', PStr ''3 0 R''), (''Size'', PInt 6),
             (''MediaBox'', PStr ''[0 0 612 792]''), (''ProcSet'', PStr ''[/PDF /Text]'')]"
  let ?inner = "'' /Type /Catalog /Pages 3 0 R /Size 6 /MediaBox [0 0 612 792] /ProcSet [/PDF /Text] ''"
  have ok: "flat_ok ?m"
    by code_simp
  have ser: "dict_to_pdf ?m = Inr (''<<'' @ ?inner @ ''>>'')"
    by code_simp
  from get_dict_inverts_dict_to_pdf_inner [OF ok] obtain inner
    where i: "dict_to_pdf ?m = Inr (''<<'' @ inner @ ''>>'')"
      and g: "map_option fst (get_dict inner) = Some ?m"
    by blast
  from i ser have "inner = ?inner"
    by (simp only: sum.inject same_append_eq append_same_eq)
  with g ok ser show ?thesis
    by simp
qed

text \<open>
  Applied to the whole output of the serializer the parser finds neither the end of a dictionary
  nor an item at \<open><<\<close>: it warns and returns the empty mapping. Applied to the inner text, it
  reads a negative integer back as a string, a string of digits back as an integer, and a
  string that holds a name back as two items.
\<close>

theorem get_dict_of_dict_to_pdf_counterexample:
  "dict_to_pdf [(''Size'', PInt 6)] = Inr ''<< /Size 6 >>'' \<and>
   get_dict ''<< /Size 6 >>'' = Some ([], [ExpectedDictItem ''<< /Size 6 >>'']) \<and>
   dict_to_pdf [(''Size'', PInt (- 5))] = Inr ''<< /Size -5 >>'' \<and>
   get_dict '' /Size -5 '' = Some ([(''Size'', PStr ''-5'')], []) \<and>
   dict_to_pdf [(''A'', PStr ''12'')] = Inr ''<< /A 12 >>'' \<and>
   get_dict '' /A 12 '' = Some ([(''A'', PInt 12)], []) \<and>
   dict_to_pdf [(''A'', PStr ''x /B y'')] = Inr ''<< /A x /B y >>'' \<and>
   get_dict '' /A x /B y '' = Some ([(''A'', PStr ''x''), (''B'', PStr ''y'')], [])"
  by code_simp

end
